theory Spec2Isabelle
  imports Main "HOL-Library.Char_ord" "HOL-Library.List_Lexorder" "HOL-Library.AList"
begin

section \<open>Bounded inspection of CSV/Parquet files in a dataset root\<close>

text \<open>
  A shallow embedding of \<^verbatim>\<open>inspect-dataset/scripts/inspect_dataset.py\<close>.
  Python integers are \<open>int\<close>, the strings of paths and messages are \<open>string\<close>
  (sequences of code points below 256, compared lexicographically, as Python compares
  \<open>str\<close>), the strings read from a file are lists of code points, exceptions are values
  of the type \<open>error\<close> returned on the left of a sum.
\<close>

subsection \<open>The filesystem snapshot\<close>

text \<open>
  The program only reads the filesystem. A snapshot is a finite tree: a regular file,
  a directory with its named children, a directory whose listing raises \<open>OSError\<close>
  (permission denied), an object that is neither a regular file nor a directory
  (socket, device, broken symbolic link), or nothing at all.
\<close>

datatype fsnode =
    File
  | Dir "(string \<times> fsnode) list"
  | Unreadable
  | Special
  | Missing

text \<open>
  A \<^verbatim>\<open>pathlib.Path\<close> value is its list of components together with the object it
  denotes in the snapshot, so that \<^verbatim>\<open>is_file\<close>, \<^verbatim>\<open>is_dir\<close> and \<^verbatim>\<open>iterdir\<close> are
  functions of the path alone.
\<close>

type_synonym Path = "string list \<times> fsnode"

datatype error = OSError | KeyError | CsvError | UnicodeDecodeError | ValueError string

definition parts :: "Path \<Rightarrow> string list" where
  "parts p = fst p"

definition name :: "Path \<Rightarrow> string" where
  "name p = (if fst p = [] then [] else last (fst p))"

definition is_file :: "Path \<Rightarrow> bool" where
  "is_file p = (snd p = File)"

definition is_dir :: "Path \<Rightarrow> bool" where
  "is_dir p = (case snd p of Dir cs \<Rightarrow> True | Unreadable \<Rightarrow> True | _ \<Rightarrow> False)"

definition exists :: "Path \<Rightarrow> bool" where
  "exists p = (snd p \<noteq> Missing)"

text \<open>\<^verbatim>\<open>path.iterdir()\<close>: the children \<^verbatim>\<open>path / name\<close>, or \<open>OSError\<close>.\<close>

definition iterdir :: "Path \<Rightarrow> error + Path list" where
  "iterdir p =
     (case snd p of
        Dir cs \<Rightarrow> Inr (map (\<lambda>(n, c). (fst p @ [n], c)) cs)
      | _ \<Rightarrow> Inl OSError)"

text \<open>\<^verbatim>\<open>path / name\<close>: the child of that name, which may not exist.\<close>

definition joinpath :: "Path \<Rightarrow> string \<Rightarrow> Path" where
  "joinpath p n =
     (fst p @ [n],
      case snd p of
        Dir cs \<Rightarrow> (case map_of cs n of Some c \<Rightarrow> c | None \<Rightarrow> Missing)
      | _ \<Rightarrow> Missing)"

text \<open>\<^verbatim>\<open>str(path)\<close> of an absolute path.\<close>

definition str_path :: "Path \<Rightarrow> string" where
  "str_path p = (if fst p = [] then ''/'' else concat (map (\<lambda>c. ''/'' @ c) (fst p)))"

subsection \<open>Strings\<close>

definition lower_char :: "char \<Rightarrow> char" where
  "lower_char c =
     (let n = (of_char c :: nat)
      in if 65 \<le> n \<and> n \<le> 90 then char_of (n + 32) else c)"

definition lower :: "string \<Rightarrow> string" where
  "lower s = map lower_char s"

text \<open>\<^verbatim>\<open>s.rfind('.')\<close>: the last index of a dot, or \<open>-1\<close>.\<close>

definition rfind_dot :: "string \<Rightarrow> int" where
  "rfind_dot s =
     (if CHR ''.'' \<in> set s
      then int (length s) - 1 - int (length (takeWhile (\<lambda>c. c \<noteq> CHR ''.'') (rev s)))
      else - 1)"

text \<open>
  \<^verbatim>\<open>path.suffix\<close>: with \<open>i = name.rfind('.')\<close>, the text from \<open>i\<close> on when
  \<open>0 < i < len(name) - 1\<close>, and the empty string otherwise.
\<close>

definition suffix :: "Path \<Rightarrow> string" where
  "suffix p =
     (let nm = name p; i = rfind_dot nm
      in if 0 < i \<and> i < int (length nm) - 1 then drop (nat i) nm else [])"

fun digits :: "nat \<Rightarrow> string" where
  "digits n =
     (if n < 10 then [char_of (48 + n)]
      else digits (n div 10) @ [char_of (48 + n mod 10)])"

text \<open>\<^verbatim>\<open>str(n)\<close> of an integer, as an f-string renders it.\<close>

definition str_int :: "int \<Rightarrow> string" where
  "str_int i = (if i < 0 then CHR ''-'' # digits (nat (- i)) else digits (nat i))"

subsection \<open>Constants\<close>

definition DEFAULT_MAX_FILES :: int where
  "DEFAULT_MAX_FILES = 12"

definition DEFAULT_SAMPLE_ROWS :: int where
  "DEFAULT_SAMPLE_ROWS = 200"

definition DEFAULT_SUBDIR_MAX_DEPTH :: int where
  "DEFAULT_SUBDIR_MAX_DEPTH = 2"

definition TABULAR_SUFFIXES :: "string list" where
  "TABULAR_SUFFIXES = [''.csv'', ''.parquet'']"

definition ALLOWED_SUBDIRECTORIES :: "string list" where
  "ALLOWED_SUBDIRECTORIES =
     [''train'', ''val'', ''valid'', ''validation'', ''test'', ''metadata'', ''labels'',
      ''annotations'']"

definition EMPTY_CELL_VALUE :: string where
  "EMPTY_CELL_VALUE = []"

record InspectionWarning =
  code :: string
  message :: string

subsection \<open>Discovery\<close>

definition is_tabular_file :: "Path \<Rightarrow> bool" where
  "is_tabular_file p = (is_file p \<and> lower (suffix p) \<in> set TABULAR_SUFFIXES)"

definition list_root_tabular_files :: "Path \<Rightarrow> error + Path list" where
  "list_root_tabular_files dataset_root =
     (case iterdir dataset_root of
        Inl e \<Rightarrow> Inl e
      | Inr children \<Rightarrow> Inr (filter is_tabular_file (sort_key name children)))"

definition list_allowlisted_directories :: "Path \<Rightarrow> Path list" where
  "list_allowlisted_directories dataset_root =
     filter is_dir (map (joinpath dataset_root) ALLOWED_SUBDIRECTORIES)"

text \<open>
  The \<^verbatim>\<open>for entry in entries\<close> loop of \<^verbatim>\<open>bounded_scan_directory\<close>, on the pair of
  the list \<^verbatim>\<open>discovered\<close> and the queue.
\<close>

fun scan_entries ::
  "int \<Rightarrow> int \<Rightarrow> int \<Rightarrow> Path list \<Rightarrow> Path list \<times> (Path \<times> int) list
     \<Rightarrow> Path list \<times> (Path \<times> int) list" where
  "scan_entries max_depth limit depth [] (discovered, queue) = (discovered, queue)"
| "scan_entries max_depth limit depth (entry # entries) (discovered, queue) =
     (if int (length discovered) \<ge> limit then (discovered, queue)
      else if is_tabular_file entry
        then scan_entries max_depth limit depth entries (discovered @ [entry], queue)
      else if is_dir entry \<and> depth < max_depth
        then scan_entries max_depth limit depth entries (discovered, queue @ [(entry, depth + 1)])
      else scan_entries max_depth limit depth entries (discovered, queue))"

text \<open>The size of the snapshot below the queued directories: it decreases at every dequeue.\<close>

fun node_size :: "fsnode \<Rightarrow> nat" where
  "node_size (Dir cs) = Suc (sum_list (map (\<lambda>nc. node_size (snd nc)) cs))"
| "node_size _ = 1"

definition queue_size :: "(Path \<times> int) list \<Rightarrow> nat" where
  "queue_size q = sum_list (map (\<lambda>pd. node_size (snd (fst pd))) q)"

lemma sum_list_insort_key:
  "sum_list (map f (insort_key g x xs)) = (f x :: nat) + sum_list (map f xs)"
  by (induction xs) auto

lemma sum_list_sort_key:
  "sum_list (map f (sort_key g xs)) = sum_list (map (f::'a \<Rightarrow> nat) xs)"
  by (induction xs) (auto simp: sum_list_insort_key)

lemma node_size_pos: "0 < node_size n"
  by (cases n) auto

lemma iterdir_size:
  "iterdir p = Inr cs \<Longrightarrow> sum_list (map (\<lambda>c. node_size (snd c)) cs) < node_size (snd p)"
  by (auto simp: iterdir_def comp_def case_prod_unfold split: fsnode.splits)

lemma scan_entries_queue_size:
  "queue_size (snd (scan_entries md l k es (d, q)))
     \<le> queue_size q + sum_list (map (\<lambda>c. node_size (snd c)) es)"
proof (induction es arbitrary: d q)
  case Nil
  show ?case by simp
next
  case (Cons e es)
  show ?case
    using Cons.IH [of d q] Cons.IH [of "d @ [e]" q] Cons.IH [of d "q @ [(e, k + 1)]"]
    by (auto simp: queue_size_def)
qed

lemma bfs_loop_decreases:
  assumes "iterdir cur = Inr cs"
    and "(d', q') = scan_entries md l k (sort_key name cs) (d, q)"
  shows "queue_size q' < queue_size ((cur, k) # q)"
proof -
  have "queue_size q' \<le> queue_size q + sum_list (map (\<lambda>c. node_size (snd c)) (sort_key name cs))"
    using scan_entries_queue_size [of md l k "sort_key name cs" d q] assms(2) [symmetric] by simp
  also have "\<dots> < queue_size q + node_size (snd cur)"
    using iterdir_size [OF assms(1)] by (simp add: sum_list_sort_key)
  finally show ?thesis by (simp add: queue_size_def)
qed

text \<open>
  The \<^verbatim>\<open>while queue and len(discovered) < limit\<close> loop of \<^verbatim>\<open>bounded_scan_directory\<close>:
  a listing that raises \<open>OSError\<close> is the \<^verbatim>\<open>continue\<close> branch.
\<close>

function bfs_loop :: "int \<Rightarrow> int \<Rightarrow> (Path \<times> int) list \<Rightarrow> Path list \<Rightarrow> Path list" where
  "bfs_loop max_depth limit [] discovered = discovered"
| "bfs_loop max_depth limit ((current_dir, depth) # queue) discovered =
     (if \<not> int (length discovered) < limit then discovered
      else case iterdir current_dir of
        Inl e \<Rightarrow> bfs_loop max_depth limit queue discovered
      | Inr children \<Rightarrow>
          (case scan_entries max_depth limit depth (sort_key name children) (discovered, queue) of
             (discovered', queue') \<Rightarrow> bfs_loop max_depth limit queue' discovered'))"
  by pat_completeness auto
termination
  apply (relation "measure (\<lambda>(md, l, q, d). queue_size q)")
    apply simp
   apply (simp add: queue_size_def node_size_pos)
  apply (simp add: bfs_loop_decreases)
  done

definition bounded_scan_directory :: "Path \<Rightarrow> int \<Rightarrow> int \<Rightarrow> Path list" where
  "bounded_scan_directory root max_depth limit =
     (if limit \<le> 0 then [] else bfs_loop max_depth limit [(root, 0)] [])"

text \<open>\<^verbatim>\<open>xs[:n]\<close>: a negative \<open>n\<close> counts from the end.\<close>

definition slice_to :: "'a list \<Rightarrow> int \<Rightarrow> 'a list" where
  "slice_to xs n = (if 0 \<le> n then take (nat n) xs else take (length xs - nat (- n)) xs)"

text \<open>
  The \<^verbatim>\<open>for subdir in allowlisted_dirs\<close> loop of \<^verbatim>\<open>discover_tabular_files\<close>, on the
  pair of \<^verbatim>\<open>discovered\<close> and \<^verbatim>\<open>remaining\<close>.
\<close>

fun scan_subdirs :: "int \<Rightarrow> int \<Rightarrow> Path list \<Rightarrow> Path list \<times> int \<Rightarrow> Path list \<times> int" where
  "scan_subdirs max_files subdir_max_depth [] (discovered, remaining) = (discovered, remaining)"
| "scan_subdirs max_files subdir_max_depth (subdir # rest) (discovered, remaining) =
     (if remaining \<le> 0 then (discovered, remaining)
      else
        let newly_found = bounded_scan_directory subdir subdir_max_depth remaining;
            discovered' = discovered @ newly_found
        in scan_subdirs max_files subdir_max_depth rest
             (discovered', max_files - int (length discovered')))"

definition no_allowlisted_dirs :: InspectionWarning where
  "no_allowlisted_dirs =
     \<lparr>code = ''no_allowlisted_dirs'',
      message = ''No allowlisted subdirectories were found; ''
        @ ''inspected only root-level tabular files.''\<rparr>"

definition max_files_reached :: "int \<Rightarrow> InspectionWarning" where
  "max_files_reached max_files =
     \<lparr>code = ''max_files_reached'',
      message = ''Stopped after reaching --max-files='' @ str_int max_files @ ''.''\<rparr>"

definition no_tabular_files_found :: InspectionWarning where
  "no_tabular_files_found =
     \<lparr>code = ''no_tabular_files_found'',
      message = ''No CSV/Parquet files were found with the current bounded scan rules.''\<rparr>"

definition discover_tabular_files ::
  "Path \<Rightarrow> int \<Rightarrow> int \<Rightarrow> error + Path list \<times> InspectionWarning list" where
  "discover_tabular_files dataset_root max_files subdir_max_depth =
     (case list_root_tabular_files dataset_root of
        Inl e \<Rightarrow> Inl e
      | Inr discovered \<Rightarrow>
          if int (length discovered) \<ge> max_files
          then Inr (slice_to discovered max_files, [])
          else
            let remaining = max_files - int (length discovered);
                allowlisted_dirs = list_allowlisted_directories dataset_root
            in if allowlisted_dirs = [] then Inr (discovered, [no_allowlisted_dirs])
               else
                 (case scan_subdirs max_files subdir_max_depth allowlisted_dirs
                         (discovered, remaining) of
                    (discovered', remaining') \<Rightarrow>
                      if remaining' \<le> 0
                        then Inr (discovered', [max_files_reached max_files])
                      else if discovered' = []
                        then Inr (discovered', [no_tabular_files_found])
                      else Inr (discovered', [])))"

subsection \<open>Decoding a file\<close>

text \<open>
  The bytes of a file are numbers below 256. A string read from a file can hold any
  code point, so it is the list of its code points; \<open>ascii\<close> is such a string written as
  a literal.
\<close>

type_synonym str = "nat list"

definition ascii :: "string \<Rightarrow> str" where
  "ascii s = map of_char s"

text \<open>
  The UTF-8 decoder of \<^verbatim>\<open>open(..., encoding="utf-8", errors=...)\<close>. One step reads the
  sequence at the head of the bytes and gives its code point and length, or no code
  point and the number of bytes that are in error: a byte that starts no sequence, a
  sequence cut by a byte that does not continue it (the bytes before that one), a
  sequence cut by the end of the file (all that is left). Overlong forms, surrogates and
  code points above \<open>0x10FFFF\<close> start no sequence.
\<close>

definition continuation :: "nat \<Rightarrow> bool" where
  "continuation b = (0x80 \<le> b \<and> b < 0xC0)"

fun utf8_step :: "nat list \<Rightarrow> nat option \<times> nat" where
  "utf8_step [] = (None, 1)"
| "utf8_step (b # bs) =
     (if b < 0x80 then (Some b, 1)
      else if b < 0xC2 then (None, 1)
      else if b < 0xE0 then
        (case bs of
           [] \<Rightarrow> (None, 1)
         | b2 # r \<Rightarrow>
             if continuation b2 then (Some ((b - 0xC0) * 64 + (b2 - 0x80)), 2)
             else (None, 1))
      else if b < 0xF0 then
        (case bs of
           [] \<Rightarrow> (None, 1)
         | b2 # r \<Rightarrow>
             if \<not> continuation b2 \<or> (b = 0xE0 \<and> b2 < 0xA0) \<or> (b = 0xED \<and> 0xA0 \<le> b2)
             then (None, 1)
             else
               (case r of
                  [] \<Rightarrow> (None, 2)
                | b3 # r' \<Rightarrow>
                    if continuation b3
                    then (Some ((b - 0xE0) * 4096 + (b2 - 0x80) * 64 + (b3 - 0x80)), 3)
                    else (None, 2)))
      else if b < 0xF5 then
        (case bs of
           [] \<Rightarrow> (None, 1)
         | b2 # r \<Rightarrow>
             if \<not> continuation b2 \<or> (b = 0xF0 \<and> b2 < 0x90) \<or> (b = 0xF4 \<and> 0x90 \<le> b2)
             then (None, 1)
             else
               (case r of
                  [] \<Rightarrow> (None, 2)
                | b3 # r' \<Rightarrow>
                    if \<not> continuation b3 then (None, 2)
                    else
                      (case r' of
                         [] \<Rightarrow> (None, 3)
                       | b4 # r'' \<Rightarrow>
                           if continuation b4
                           then (Some ((b - 0xF0) * 262144 + (b2 - 0x80) * 4096
                                         + (b3 - 0x80) * 64 + (b4 - 0x80)), 4)
                           else (None, 3))))
      else (None, 1))"

lemma utf8_step_consumes: "0 < snd (utf8_step bs)"
  by (cases bs) (auto split: list.splits)

lemma utf8_step_shorter:
  "(cp, k) = utf8_step (b # bs) \<Longrightarrow>
   ((errors, drop k (b # bs)), (errors, b # bs)) \<in> measure (\<lambda>(errors, bs). length bs)"
  using utf8_step_consumes [of "b # bs"] by (cases "utf8_step (b # bs)") auto

text \<open>
  The error handlers: \<^verbatim>\<open>errors="strict"\<close> raises \<open>UnicodeDecodeError\<close> at the first
  bytes in error, \<^verbatim>\<open>errors="replace"\<close> puts U+FFFD in their place and goes on.
\<close>

datatype error_handler = Strict | Replace

function utf8_decode :: "error_handler \<Rightarrow> nat list \<Rightarrow> error + str" where
  "utf8_decode errors [] = Inr []"
| "utf8_decode errors (b # bs) =
     (case utf8_step (b # bs) of
        (Some c, k) \<Rightarrow>
          (case utf8_decode errors (drop k (b # bs)) of
             Inl e \<Rightarrow> Inl e
           | Inr t \<Rightarrow> Inr (c # t))
      | (None, k) \<Rightarrow>
          (case errors of
             Strict \<Rightarrow> Inl UnicodeDecodeError
           | Replace \<Rightarrow>
               (case utf8_decode errors (drop k (b # bs)) of
                  Inl e \<Rightarrow> Inl e
                | Inr t \<Rightarrow> Inr (0xFFFD # t))))"
  by pat_completeness auto
termination
  apply (relation "measure (\<lambda>(errors, bs). length bs)")
    apply simp
   apply (metis utf8_step_shorter)
  apply (metis utf8_step_shorter)
  done

subsection \<open>The CSV inspector\<close>

text \<open>
  A Python \<^verbatim>\<open>dict\<close> is an association list in insertion order; assigning to a key
  that is present replaces its value in place.
\<close>

type_synonym ('k, 'v) dict = "('k \<times> 'v) list"

record CsvSummary =
  csv_kind :: string
  csv_path :: string
  csv_columns :: "str list"
  csv_sampled_rows :: int
  csv_null_counts :: "(str, int) dict"

text \<open>\<^verbatim>\<open>str.isspace\<close> of a code point, and \<^verbatim>\<open>str.strip()\<close>.\<close>

definition isspace :: "nat \<Rightarrow> bool" where
  "isspace c =
     (c \<in> {0x09, 0x0A, 0x0B, 0x0C, 0x0D, 0x1C, 0x1D, 0x1E, 0x1F, 0x20, 0x85, 0xA0, 0x1680}
      \<or> (0x2000 \<le> c \<and> c \<le> 0x200A)
      \<or> c \<in> {0x2028, 0x2029, 0x202F, 0x205F, 0x3000})"

definition strip :: "str \<Rightarrow> str" where
  "strip s = rev (dropWhile isspace (rev (dropWhile isspace s)))"

text \<open>
  \<^verbatim>\<open>csv.reader\<close> over the handle is what its pulls give, one after the other: a
  record (a list of fields; a blank line is the record \<open>[]\<close>), or the exception that
  reading it raises (\<^verbatim>\<open>csv.Error\<close> for a field over the field size limit,
  \<open>OSError\<close> from the handle); after the last one the reader is exhausted.
\<close>

type_synonym reader = "(error + str list) list"

text \<open>
  \<^verbatim>\<open>DictReader.fieldnames\<close>, read at its first use: the first pull, \<open>None\<close> when the
  reader is exhausted; what the pull raises is raised. The second component is the
  reader after the pull.
\<close>

fun fieldnames :: "reader \<Rightarrow> error + str list option \<times> reader" where
  "fieldnames [] = Inr (None, [])"
| "fieldnames (Inl e # reader) = Inl e"
| "fieldnames (Inr names # reader) = Inr (Some names, reader)"

text \<open>
  The dictionary of a record: the fields under their names, a later duplicate name over
  an earlier one, and \<open>None\<close> under the names that the record is too short for. The
  fields beyond the last name go under the key \<open>None\<close>, which is no column name; that
  entry is left out.
\<close>

definition dict_row :: "str list \<Rightarrow> str list \<Rightarrow> (str, str option) dict" where
  "dict_row names record =
     (let d = fold (\<lambda>(key, field) d. AList.update key (Some field) d) (zip names record) []
      in if length names > length record
         then fold (\<lambda>key d. AList.update key None d) (drop (length record) names) d
         else d)"

text \<open>
  \<^verbatim>\<open>DictReader.__next__\<close>: pulls until a record is not blank; \<open>None\<close> is
  \<^verbatim>\<open>StopIteration\<close>.
\<close>

fun reader_next ::
  "str list \<Rightarrow> reader \<Rightarrow> error + ((str, str option) dict \<times> reader) option" where
  "reader_next names [] = Inr None"
| "reader_next names (Inl e # reader) = Inl e"
| "reader_next names (Inr record # reader) =
     (if record = [] then reader_next names reader
      else Inr (Some (dict_row names record, reader)))"

lemma reader_next_shorter:
  "reader_next names reader = Inr (Some (row, reader')) \<Longrightarrow> length reader' < length reader"
  by (induction names reader rule: reader_next.induct) (auto split: if_splits)

text \<open>
  The \<^verbatim>\<open>for column in columns\<close> loop on \<^verbatim>\<open>null_counts\<close>; \<^verbatim>\<open>row.get(column)\<close> is
  \<open>None\<close> for a missing key, and \<^verbatim>\<open>null_counts[column] += 1\<close> raises \<open>KeyError\<close> for one.
\<close>

fun count_nulls ::
  "str list \<Rightarrow> (str, str option) dict \<Rightarrow> (str, int) dict \<Rightarrow> error + (str, int) dict" where
  "count_nulls [] row null_counts = Inr null_counts"
| "count_nulls (column # columns) row null_counts =
     (if (case map_of row column of
            None \<Rightarrow> True
          | Some None \<Rightarrow> True
          | Some (Some v) \<Rightarrow> strip v = ascii EMPTY_CELL_VALUE)
      then (case map_of null_counts column of
              None \<Rightarrow> Inl KeyError
            | Some n \<Rightarrow> count_nulls columns row (AList.update column (n + 1) null_counts))
      else count_nulls columns row null_counts)"

text \<open>
  The \<^verbatim>\<open>for row in reader\<close> loop on \<^verbatim>\<open>sampled_rows\<close> and \<^verbatim>\<open>null_counts\<close>: the row
  is pulled before \<^verbatim>\<open>sampled_rows >= sample_rows\<close> is tested.
\<close>

function sample_loop ::
  "int \<Rightarrow> str list \<Rightarrow> str list \<Rightarrow> reader \<Rightarrow> int \<times> (str, int) dict
     \<Rightarrow> error + int \<times> (str, int) dict" where
  "sample_loop sample_rows columns names reader (sampled_rows, null_counts) =
     (case reader_next names reader of
        Inl e \<Rightarrow> Inl e
      | Inr None \<Rightarrow> Inr (sampled_rows, null_counts)
      | Inr (Some (row, reader')) \<Rightarrow>
          if sampled_rows \<ge> sample_rows then Inr (sampled_rows, null_counts)
          else case count_nulls columns row null_counts of
                 Inl e \<Rightarrow> Inl e
               | Inr null_counts' \<Rightarrow>
                   sample_loop sample_rows columns names reader'
                     (sampled_rows + 1, null_counts'))"
  by pat_completeness auto
termination
  apply (relation "measure (\<lambda>(sample_rows, columns, names, reader, state). length reader)")
   apply simp
  apply (auto dest: reader_next_shorter)
  done

text \<open>
  \<^verbatim>\<open>inspect_csv_file\<close>, on \<^verbatim>\<open>csv.reader\<close> (what it pulls from a decoded file), the
  path and what opening the file gives: \<open>OSError\<close>, or its bytes, decoded with
  \<^verbatim>\<open>errors="replace"\<close>. A field read by \<^verbatim>\<open>csv.reader\<close> is a string, so the filter
  \<^verbatim>\<open>if field is not None\<close> keeps every name.
\<close>

definition inspect_csv_file ::
  "(str \<Rightarrow> reader) \<Rightarrow> Path \<Rightarrow> error + nat list \<Rightarrow> int \<Rightarrow> error + CsvSummary" where
  "inspect_csv_file csv_reader path file sample_rows =
     (case file of
        Inl e \<Rightarrow> Inl e
      | Inr bytes \<Rightarrow>
          (case utf8_decode Replace bytes of
             Inl e \<Rightarrow> Inl e
           | Inr handle \<Rightarrow>
               (case fieldnames (csv_reader handle) of
                  Inl e \<Rightarrow> Inl e
                | Inr (names, reader) \<Rightarrow>
                    let columns = (case names of None \<Rightarrow> [] | Some header \<Rightarrow> header);
                        null_counts = fold (\<lambda>column d. AList.update column 0 d) columns []
                    in case sample_loop sample_rows columns columns reader (0, null_counts) of
                         Inl e \<Rightarrow> Inl e
                       | Inr (sampled_rows, null_counts') \<Rightarrow>
                           Inr \<lparr>csv_kind = ''csv'', csv_path = str_path path,
                                csv_columns = columns, csv_sampled_rows = sampled_rows,
                                csv_null_counts = null_counts'\<rparr>)))"

subsection \<open>The Parquet inspector\<close>

record FallbackOption =
  tool :: string
  commands :: "string list"

record Fallback =
  options :: "FallbackOption list"

record ParquetSummary =
  pq_kind :: string
  pq_path :: string
  pq_status :: string
  pq_columns :: "(string, string) dict list"
  pq_sampled_rows :: "int option"
  pq_null_counts :: "(string, int) dict option"
  pq_fallback :: "Fallback option"
  pq_error :: "string option"

text \<open>
  What the program asks of its host: \<^verbatim>\<open>shutil.which\<close>, and \<^verbatim>\<open>pyarrow\<close> when it can be
  imported. An exception of \<^verbatim>\<open>pyarrow\<close> that the program catches is the text that
  \<^verbatim>\<open>str(error)\<close> gives; \<^verbatim>\<open>table[name].null_count\<close> is read outside every \<^verbatim>\<open>try\<close>.
\<close>

record Table =
  num_rows :: int
  column_names :: "string list"
  null_count :: "string \<Rightarrow> error + int"

record ParquetFile =
  schema_arrow :: "(string \<times> string) list"
  iter_batches :: "int \<Rightarrow> string + Table option"

record Host =
  which :: "string \<Rightarrow> string option"
  pyarrow :: "(Path \<Rightarrow> string + ParquetFile) option"

text \<open>\<^verbatim>\<open>s.replace("'", r)\<close>.\<close>

definition replace_quote :: "string \<Rightarrow> string \<Rightarrow> string" where
  "replace_quote r s = concat (map (\<lambda>c. if c = CHR 0x27 then r else [c]) s)"

text \<open>
  \<^verbatim>\<open>shlex.quote\<close>: the empty string is \<^verbatim>\<open>''\<close>, a string of safe characters
  (\<^verbatim>\<open>[A-Za-z0-9_@%+=:,./-]\<close>) is itself, any other is put between single quotes.
\<close>

definition safe_char :: "char \<Rightarrow> bool" where
  "safe_char c =
     (let n = (of_char c :: nat)
      in (65 \<le> n \<and> n \<le> 90) \<or> (97 \<le> n \<and> n \<le> 122) \<or> (48 \<le> n \<and> n \<le> 57)
         \<or> c \<in> set ''_@%+=:,./-'')"

definition shlex_quote :: "string \<Rightarrow> string" where
  "shlex_quote s =
     (if s = [] then [CHR 0x27, CHR 0x27]
      else if list_all safe_char s then s
      else [CHR 0x27] @ replace_quote [CHR 0x27, CHR 0x22, CHR 0x27, CHR 0x22, CHR 0x27] s
             @ [CHR 0x27])"

text \<open>\<^verbatim>\<open>path.parent\<close>; only its text is used.\<close>

definition parent :: "Path \<Rightarrow> Path" where
  "parent p = (butlast (fst p), Missing)"

text \<open>The truth value of what \<^verbatim>\<open>shutil.which\<close> returns.\<close>

definition found :: "string option \<Rightarrow> bool" where
  "found w = (case w of None \<Rightarrow> False | Some s \<Rightarrow> s \<noteq> [])"

definition build_parquet_fallback :: "Host \<Rightarrow> Path \<Rightarrow> Fallback" where
  "build_parquet_fallback host path =
     (let shell_quoted_path = shlex_quote (str_path path);
          sql_quoted_path = replace_quote [CHR 0x27, CHR 0x27] (str_path path);
          options1 =
            (if found (which host ''duckdb'')
             then [\<lparr>tool = ''duckdb'',
                    commands =
                      [''duckdb -c '' @ [CHR 0x22] @ ''DESCRIBE SELECT * FROM read_parquet(''
                         @ [CHR 0x27] @ sql_quoted_path @ [CHR 0x27] @ '') LIMIT 0;''
                         @ [CHR 0x22],
                       ''duckdb -c '' @ [CHR 0x22] @ ''SELECT * FROM read_parquet(''
                         @ [CHR 0x27] @ sql_quoted_path @ [CHR 0x27] @ '') LIMIT 5;''
                         @ [CHR 0x22]]\<rparr>]
             else []);
          options2 =
            (if found (which host ''parquet-tools'')
             then options1
                    @ [\<lparr>tool = ''parquet-tools'',
                        commands =
                          [''parquet-tools schema '' @ shell_quoted_path,
                           ''parquet-tools head '' @ shell_quoted_path]\<rparr>]
             else options1);
          options3 =
            options2
              @ [\<lparr>tool = ''uv'',
                  commands =
                    [''uv run --with pyarrow inspect-dataset/scripts/inspect_dataset.py ''
                       @ ''--dataset-root '' @ shlex_quote (str_path (parent path))]\<rparr>]
      in \<lparr>options = options3\<rparr>)"

text \<open>
  The loop \<^verbatim>\<open>for column_name in table.column_names\<close> that fills \<^verbatim>\<open>null_counts\<close>.
\<close>

fun table_null_counts ::
  "Table \<Rightarrow> string list \<Rightarrow> (string, int) dict \<Rightarrow> error + (string, int) dict" where
  "table_null_counts table [] null_counts = Inr null_counts"
| "table_null_counts table (column_name # rest) null_counts =
     (case null_count table column_name of
        Inl e \<Rightarrow> Inl e
      | Inr n \<Rightarrow> table_null_counts table rest (AList.update column_name n null_counts))"

definition inspect_parquet_file :: "Host \<Rightarrow> Path \<Rightarrow> int \<Rightarrow> error + ParquetSummary" where
  "inspect_parquet_file host path sample_rows =
     (case pyarrow host of
        None \<Rightarrow>
          Inr \<lparr>pq_kind = ''parquet'', pq_path = str_path path,
               pq_status = ''fallback-required'', pq_columns = [], pq_sampled_rows = None,
               pq_null_counts = None, pq_fallback = Some (build_parquet_fallback host path),
               pq_error = Some ''pyarrow is not installed in the active Python environment.''\<rparr>
      | Some open_parquet \<Rightarrow>
          (case open_parquet path of
             Inl err \<Rightarrow>
               Inr \<lparr>pq_kind = ''parquet'', pq_path = str_path path, pq_status = ''read-error'',
                    pq_columns = [], pq_sampled_rows = None, pq_null_counts = None,
                    pq_fallback = Some (build_parquet_fallback host path),
                    pq_error = Some (''pyarrow failed to open file: '' @ err)\<rparr>
           | Inr parquet_file \<Rightarrow>
               let columns =
                     map (\<lambda>(field_name, field_type).
                            [(''name'', field_name), (''type'', field_type)])
                       (schema_arrow parquet_file)
               in case iter_batches parquet_file sample_rows of
                    Inl err \<Rightarrow>
                      Inr \<lparr>pq_kind = ''parquet'', pq_path = str_path path,
                           pq_status = ''read-error'', pq_columns = columns,
                           pq_sampled_rows = None, pq_null_counts = None,
                           pq_fallback = Some (build_parquet_fallback host path),
                           pq_error =
                             Some (''pyarrow failed while reading sample rows: '' @ err)\<rparr>
                  | Inr first_batch \<Rightarrow>
                      (case (case first_batch of
                               None \<Rightarrow> Inr (0, [])
                             | Some table \<Rightarrow>
                                 (case table_null_counts table (column_names table) [] of
                                    Inl e \<Rightarrow> Inl e
                                  | Inr null_counts \<Rightarrow> Inr (num_rows table, null_counts))) of
                         Inl e \<Rightarrow> Inl e
                       | Inr (sampled_rows, null_counts) \<Rightarrow>
                           Inr \<lparr>pq_kind = ''parquet'', pq_path = str_path path,
                                pq_status = ''ok'', pq_columns = columns,
                                pq_sampled_rows = Some sampled_rows,
                                pq_null_counts = Some null_counts, pq_fallback = None,
                                pq_error = None\<rparr>)))"

subsection \<open>Input validation\<close>

record Namespace =
  dataset_root :: Path
  max_files :: int
  sample_rows :: int
  subdir_max_depth :: int
  output_format :: string

definition subdir_scan_disabled :: InspectionWarning where
  "subdir_scan_disabled =
     \<lparr>code = ''subdir_scan_disabled'',
      message = ''Subdirectory scanning disabled; only root-level files are inspected.''\<rparr>"

text \<open>
  The field \<open>dataset_root\<close> holds the path after \<^verbatim>\<open>expanduser().resolve()\<close>.
\<close>

definition validate_inputs :: "Namespace \<Rightarrow> error + Path \<times> InspectionWarning list" where
  "validate_inputs args =
     (if \<not> exists (dataset_root args)
        then Inl (ValueError (''Dataset root does not exist: '' @ str_path (dataset_root args)))
      else if \<not> is_dir (dataset_root args)
        then Inl (ValueError (''Dataset root is not a directory: '' @ str_path (dataset_root args)))
      else if max_files args \<le> 0
        then Inl (ValueError ''--max-files must be greater than zero.'')
      else if sample_rows args \<le> 0
        then Inl (ValueError ''--sample-rows must be greater than zero.'')
      else if subdir_max_depth args < 0
        then Inl (ValueError ''--subdir-max-depth must be zero or greater.'')
      else Inr (dataset_root args,
                if subdir_max_depth args = 0 then [subdir_scan_disabled] else []))"

section \<open>The order of discovery, level by level\<close>

text \<open>
  The determinism contract of the discovery engine, written without a queue and without a
  budget: the children of a directory in the order of their names (none when the listing
  fails), the tabular files of a subdirectory level by level down to the depth bound, and
  the root-level files before those of the allowlisted subdirectories in their fixed
  order.
\<close>

definition sorted_children :: "Path \<Rightarrow> Path list" where
  "sorted_children p = (case iterdir p of Inl e \<Rightarrow> [] | Inr cs \<Rightarrow> sort_key name cs)"

fun bfs_levels :: "nat \<Rightarrow> Path list \<Rightarrow> Path list" where
  "bfs_levels 0 dirs = filter is_tabular_file (concat (map sorted_children dirs))"
| "bfs_levels (Suc k) dirs =
     filter is_tabular_file (concat (map sorted_children dirs))
       @ bfs_levels k (filter is_dir (concat (map sorted_children dirs)))"

definition subdir_order :: "int \<Rightarrow> Path list \<Rightarrow> Path list" where
  "subdir_order md subs = concat (map (\<lambda>sub. bfs_levels (nat md) [sub]) subs)"

definition discovery_order :: "Path \<Rightarrow> int \<Rightarrow> Path list" where
  "discovery_order root md =
     filter is_tabular_file (sorted_children root)
       @ subdir_order md (filter is_dir (map (joinpath root) ALLOWED_SUBDIRECTORIES))"

text \<open>A file inside a directory, and the number of directory levels between them.\<close>

definition inside :: "Path \<Rightarrow> Path \<Rightarrow> bool" where
  "inside sub f =
     (length (parts sub) < length (parts f) \<and> take (length (parts sub)) (parts f) = parts sub)"

definition levels_below :: "Path \<Rightarrow> Path \<Rightarrow> int" where
  "levels_below sub f = int (length (parts f)) - int (length (parts sub)) - 1"

text \<open>
  The snapshot in which every directory that cannot be listed is an empty directory.
\<close>

primrec as_empty :: "fsnode \<Rightarrow> fsnode" where
  "as_empty File = File"
| "as_empty (Dir cs) = Dir (map (map_prod id as_empty) cs)"
| "as_empty Unreadable = Dir []"
| "as_empty Special = Special"
| "as_empty Missing = Missing"

definition readable :: "Path \<Rightarrow> Path" where
  "readable p = (fst p, as_empty (snd p))"

subsection \<open>The scan without its limit\<close>

text \<open>
  The queue discipline of \<^verbatim>\<open>bounded_scan_directory\<close> with the limit left out: the
  directories a queued directory enqueues, and the files found from a queue.
\<close>

definition kids :: "int \<Rightarrow> Path \<times> int \<Rightarrow> (Path \<times> int) list" where
  "kids md pk =
     (if snd pk < md
      then map (\<lambda>e. (e, snd pk + 1)) (filter is_dir (sorted_children (fst pk)))
      else [])"

lemma sum_list_filter_le:
  "sum_list (map f (filter P xs)) \<le> sum_list (map (f::'a \<Rightarrow> nat) xs)"
  by (induction xs) auto

lemma sorted_children_size:
  "sum_list (map (\<lambda>c. node_size (snd c)) (sorted_children p)) < node_size (snd p)"
proof (cases "iterdir p")
  case (Inl e)
  then show ?thesis by (simp add: sorted_children_def node_size_pos)
next
  case (Inr cs)
  then show ?thesis
    using iterdir_size [OF Inr] by (simp add: sorted_children_def sum_list_sort_key)
qed

lemma kids_size: "queue_size (kids md (p, k)) < node_size (snd p)"
proof -
  have "queue_size (kids md (p, k))
          \<le> sum_list (map (\<lambda>c. node_size (snd c)) (filter is_dir (sorted_children p)))"
    by (simp add: kids_def queue_size_def comp_def)
  also have "\<dots> \<le> sum_list (map (\<lambda>c. node_size (snd c)) (sorted_children p))"
    by (rule sum_list_filter_le)
  also have "\<dots> < node_size (snd p)" by (rule sorted_children_size)
  finally show ?thesis .
qed

lemma queue_size_append: "queue_size (q @ r) = queue_size q + queue_size r"
  by (simp add: queue_size_def)

function fifo :: "int \<Rightarrow> (Path \<times> int) list \<Rightarrow> Path list" where
  "fifo md [] = []"
| "fifo md ((cur, k) # q) =
     filter is_tabular_file (sorted_children cur) @ fifo md (q @ kids md (cur, k))"
  by pat_completeness auto
termination
proof (relation "measure (\<lambda>(md, q). queue_size q)")
  show "wf (measure (\<lambda>(md, q). queue_size q))" by simp
next
  fix md :: int and cur :: Path and k :: int and q :: "(Path \<times> int) list"
  show "((md, q @ kids md (cur, k)), (md, (cur, k) # q)) \<in> measure (\<lambda>(md, q). queue_size q)"
    using kids_size [of md cur k] by (simp add: queue_size_append) (simp add: queue_size_def)
qed

definition at_level :: "int \<Rightarrow> nat \<Rightarrow> (Path \<times> int) list \<Rightarrow> bool" where
  "at_level md n q = (\<forall>pk \<in> set q. snd pk = md - int n \<or> (n = 0 \<and> md \<le> snd pk))"

subsection \<open>The records of a CSV file\<close>

text \<open>
  The decoded file; the names of the header record; the records after it that are not
  blank, which are the data rows; a reader none of whose pulls raises.
\<close>

definition decoded :: "nat list \<Rightarrow> str" where
  "decoded bytes = (case utf8_decode Replace bytes of Inl e \<Rightarrow> [] | Inr t \<Rightarrow> t)"

definition header :: "reader \<Rightarrow> str list" where
  "header reader = (case reader of Inr names # rest \<Rightarrow> names | _ \<Rightarrow> [])"

fun records :: "reader \<Rightarrow> str list list" where
  "records [] = []"
| "records (Inl e # reader) = records reader"
| "records (Inr record # reader) =
     (if record = [] then records reader else record # records reader)"

definition data_rows :: "reader \<Rightarrow> str list list" where
  "data_rows reader = records (tl reader)"

definition raises_nothing :: "reader \<Rightarrow> bool" where
  "raises_nothing reader = list_all (\<lambda>pull. case pull of Inl e \<Rightarrow> False | Inr record \<Rightarrow> True) reader"

subsection \<open>Example snapshots\<close>

definition example_root :: Path where
  "example_root =
     ([''data''],
      Dir [(''b.csv'', File), (''a.CSV'', File), (''notes.txt'', File),
           (''train'',
            Dir [(''z.parquet'', File), (''deep'', Dir [(''q.csv'', File)]),
                 (''locked'', Unreadable)]),
           (''other'', Dir [(''x.csv'', File)])])"

definition bare_root :: Path where
  "bare_root =
     ([''data''], Dir [(''notes.txt'', File), (''images'', Dir [(''x.csv'', File)])])"

definition two_csv_root :: Path where
  "two_csv_root =
     ([''data''],
      Dir [(''a.csv'', File), (''b.csv'', File), (''train'', Dir [(''c.csv'', File)])])"

definition two_csv_args :: Namespace where
  "two_csv_args =
     \<lparr>dataset_root = two_csv_root, max_files = 1, sample_rows = 200, subdir_max_depth = 2,
      output_format = ''text''\<rparr>"

definition example_files :: "Path list" where
  "example_files =
     [([''data'', ''a.CSV''], File), ([''data'', ''b.csv''], File),
      ([''data'', ''train'', ''z.parquet''], File),
      ([''data'', ''train'', ''deep'', ''q.csv''], File)]"

definition train_dir :: Path where
  "train_dir = joinpath example_root ''train''"

definition locked_dir :: Path where
  "locked_dir = ([''data'', ''train'', ''locked''], Unreadable)"

definition depth_zero_args :: Namespace where
  "depth_zero_args =
     \<lparr>dataset_root = example_root, max_files = 12, sample_rows = 200, subdir_max_depth = 0,
      output_format = ''text''\<rparr>"

text \<open>A \<^verbatim>\<open>train/\<close> directory whose only file lies three directory levels below it.\<close>

definition deep_root :: Path where
  "deep_root =
     ([''data''],
      Dir [(''train'', Dir [(''a'', Dir [(''b'', Dir [(''c'', Dir [(''f.csv'', File)])])])])])"

text \<open>
  \<^verbatim>\<open>csv.reader\<close> with a field size limit, on text without quote characters and
  carriage returns: one record for each line, its fields between the commas.
\<close>

fun split_on :: "nat \<Rightarrow> str \<Rightarrow> str list" where
  "split_on sep [] = [[]]"
| "split_on sep (c # cs) =
     (if c = sep then [] # split_on sep cs
      else (case split_on sep cs of
              [] \<Rightarrow> [[c]]
            | field # rest \<Rightarrow> (c # field) # rest))"

definition splitlines :: "str \<Rightarrow> str list" where
  "splitlines t = (let ls = split_on 0x0A t in if last ls = [] then butlast ls else ls)"

definition plain_reader :: "nat \<Rightarrow> str \<Rightarrow> reader" where
  "plain_reader limit t =
     map (\<lambda>line.
            if line = [] then Inr []
            else if list_ex (\<lambda>field. limit < length field) (split_on 0x2C line)
              then Inl CsvError
            else Inr (split_on 0x2C line))
       (splitlines t)"

text \<open>
  A file of three data rows and a blank line, two of the rows with an empty
  \<^verbatim>\<open>label\<close>; the label of the first is the byte \<open>0xFF\<close>, which is no UTF-8.
\<close>

definition a_csv :: Path where
  "a_csv = ([''data'', ''a.csv''], File)"

definition label_csv :: "nat list" where
  "label_csv =
     ascii ''id,label'' @ [0x0A] @ ascii ''1,'' @ [0xFF, 0x0A, 0x0A] @ ascii ''2,  ''
       @ [0x0A] @ ascii ''3'' @ [0x0A]"

definition label_summary :: CsvSummary where
  "label_summary =
     \<lparr>csv_kind = ''csv'', csv_path = ''/data/a.csv'',
      csv_columns = [ascii ''id'', ascii ''label''], csv_sampled_rows = 3,
      csv_null_counts = [(ascii ''id'', 0), (ascii ''label'', 2)]\<rparr>"

text \<open>A file whose header repeats a name.\<close>

definition twice_csv :: "nat list" where
  "twice_csv = ascii ''a,a'' @ [0x0A] @ ascii ''x,'' @ [0x0A]"

definition twice_summary :: CsvSummary where
  "twice_summary =
     \<lparr>csv_kind = ''csv'', csv_path = ''/data/a.csv'',
      csv_columns = [ascii ''a'', ascii ''a''], csv_sampled_rows = 1,
      csv_null_counts = [(ascii ''a'', 2)]\<rparr>"

text \<open>
  A file whose second record is one field of 131073 characters, and one with a field of
  five characters.
\<close>

definition long_field :: "nat list" where
  "long_field = replicate 131073 0x78"

definition long_csv :: "nat list" where
  "long_csv = ascii ''a'' @ [0x0A] @ long_field @ [0x0A]"

definition wide_csv :: "nat list" where
  "wide_csv = ascii ''a,b'' @ [0x0A] @ ascii ''abcde,1'' @ [0x0A] @ ascii ''x,y'' @ [0x0A]"

text \<open>A host without \<^verbatim>\<open>pyarrow\<close>, and one with it and with \<^verbatim>\<open>duckdb\<close>.\<close>

definition bare_host :: Host where
  "bare_host = \<lparr>which = (\<lambda>tool. None), pyarrow = None\<rparr>"

definition two_column_file :: ParquetFile where
  "two_column_file =
     \<lparr>schema_arrow = [(''id'', ''int64''), (''label'', ''string'')],
      iter_batches =
        (\<lambda>batch_size.
           if batch_size \<le> 0 then Inl ''Batch size must be positive''
           else Inr (Some \<lparr>num_rows = min batch_size 3,
                            column_names = [''id'', ''label''],
                            null_count = (\<lambda>column. Inr (if column = ''label'' then 1 else 0))\<rparr>))\<rparr>"

definition arrow_host :: Host where
  "arrow_host =
     \<lparr>which = (\<lambda>tool. if tool = ''duckdb'' then Some ''/usr/bin/duckdb'' else None),
      pyarrow =
        Some (\<lambda>path. if snd path = File then Inr two_column_file
                      else Inl ''Parquet file size is 0 bytes'')\<rparr>"

definition b_parquet :: Path where
  "b_parquet = ([''data'', ''it's'', ''b.parquet''], File)"

section \<open>The global budget\<close>

lemma scan_entries_length:
  "int (length d) \<le> l \<Longrightarrow> int (length (fst (scan_entries md l k es (d, q)))) \<le> l"
  by (induction es arbitrary: d q) auto

lemma bfs_loop_length:
  "int (length d) \<le> l \<Longrightarrow> int (length (bfs_loop md l q d)) \<le> l"
proof (induction md l q d rule: bfs_loop.induct)
  case (1 md l d)
  then show ?case by simp
next
  case (2 md l cur k q d)
  show ?case
  proof (cases "int (length d) < l")
    case False
    then show ?thesis using "2.prems" by simp
  next
    case True
    show ?thesis
    proof (cases "iterdir cur")
      case (Inl e)
      then show ?thesis using True 2 by simp
    next
      case (Inr cs)
      obtain d' q' where s: "scan_entries md l k (sort_key name cs) (d, q) = (d', q')"
        by (cases "scan_entries md l k (sort_key name cs) (d, q)") auto
      have "int (length d') \<le> l"
        using scan_entries_length [of d l md k "sort_key name cs" q] "2.prems" s by simp
      then have "int (length (bfs_loop md l q' d')) \<le> l"
        using "2.IH"(2) [OF _ Inr s [symmetric]] True by simp
      then show ?thesis using True Inr s by simp
    qed
  qed
qed

lemma bounded_scan_directory_length:
  "int (length (bounded_scan_directory r md l)) \<le> max 0 l"
  using bfs_loop_length [of "[]" l md "[(r, 0)]"]
  by (auto simp: bounded_scan_directory_def)

lemma scan_subdirs_length:
  "int (length d) \<le> m \<Longrightarrow> rem = m - int (length d) \<Longrightarrow>
   scan_subdirs m md subs (d, rem) = (d', rem') \<Longrightarrow>
   int (length d') \<le> m \<and> rem' = m - int (length d')"
proof (induction subs arbitrary: d rem)
  case Nil
  then show ?case by auto
next
  case (Cons s subs)
  show ?case
  proof (cases "rem \<le> 0")
    case True
    then show ?thesis using Cons.prems by simp
  next
    case False
    let ?new = "bounded_scan_directory s md rem"
    have "int (length ?new) \<le> rem"
      using bounded_scan_directory_length [of s md rem] False by simp
    then have le: "int (length (d @ ?new)) \<le> m"
      using Cons.prems(2) by simp
    have "scan_subdirs m md subs (d @ ?new, m - int (length (d @ ?new))) = (d', rem')"
      using Cons.prems(3) False by (simp add: Let_def)
    from Cons.IH [OF le refl this] show ?thesis .
  qed
qed

lemma slice_to_length: "0 \<le> n \<Longrightarrow> int (length (slice_to xs n)) \<le> n"
  by (simp add: slice_to_def)

lemma discover_example_3_1:
  "discover_tabular_files example_root 3 1 =
     Inr ([([''data'', ''a.CSV''], File), ([''data'', ''b.csv''], File),
           ([''data'', ''train'', ''z.parquet''], File)],
          [max_files_reached 3])"
  by code_simp

text \<open>
  Claim C1: for every dataset root, every \<open>maxFiles \<ge> 1\<close> and every
  \<open>subdirMaxDepth \<ge> 0\<close>, the list of candidate files that discovery returns has at
  most \<open>maxFiles\<close> entries, however many tabular files the tree holds.
\<close>

theorem discover_at_most_max_files:
  assumes "1 \<le> m" and "0 \<le> depth"
    and "discover_tabular_files root m depth = Inr (files, warnings)"
  shows "int (length files) \<le> m"
proof (cases "list_root_tabular_files root")
  case (Inl e)
  then show ?thesis using assms(3) by (simp add: discover_tabular_files_def)
next
  case (Inr rf)
  show ?thesis
  proof (cases "int (length rf) \<ge> m")
    case True
    then have "files = slice_to rf m"
      using assms(3) Inr by (simp add: discover_tabular_files_def)
    then show ?thesis using slice_to_length [of m rf] assms(1) by simp
  next
    case False
    show ?thesis
    proof (cases "list_allowlisted_directories root = []")
      case True
      then have "files = rf"
        using assms(3) Inr False by (simp add: discover_tabular_files_def)
      then show ?thesis using False by simp
    next
      case nonempty: False
      obtain d' rem' where s:
        "scan_subdirs m depth (list_allowlisted_directories root)
           (rf, m - int (length rf)) = (d', rem')"
        by (cases "scan_subdirs m depth
              (list_allowlisted_directories root) (rf, m - int (length rf))") auto
      have "files = d'"
        using assms(3) Inr False nonempty s
        by (simp add: discover_tabular_files_def Let_def split: if_splits)
      moreover have "int (length d') \<le> m"
        using scan_subdirs_length [OF _ refl s] False by simp
      ultimately show ?thesis by simp
    qed
  qed
qed

theorem discover_at_most_max_files_witness:
  "(1::int) \<le> 3 \<and> (0::int) \<le> 1 \<and>
   discover_tabular_files example_root 3 1 =
     Inr ([([''data'', ''a.CSV''], File), ([''data'', ''b.csv''], File),
           ([''data'', ''train'', ''z.parquet''], File)],
          [max_files_reached 3]) \<and>
   int (length [([''data'', ''a.CSV''], File), ([''data'', ''b.csv''], File),
                ([''data'', ''train'', ''z.parquet''] :: string list, File)]) \<le> 3"
  using discover_at_most_max_files [OF _ _ discover_example_3_1]
  by (simp add: discover_example_3_1)

section \<open>The root phase\<close>

lemma discover_returns:
  "iterdir root = Inr cs \<Longrightarrow>
   \<exists>files warnings. discover_tabular_files root m d = Inr (files, warnings)"
  by (auto simp: discover_tabular_files_def list_root_tabular_files_def Let_def
      split: prod.splits)

lemma discover_root_phase_only:
  assumes "list_root_tabular_files root = Inr rf" and "int (length rf) \<ge> m" and "0 \<le> m"
  shows "discover_tabular_files root m d = Inr (take (nat m) rf, [])"
  using assms by (simp add: discover_tabular_files_def slice_to_def)

text \<open>
  Claim C2, at a root holding \<^verbatim>\<open>a.csv\<close>, \<^verbatim>\<open>b.csv\<close> and \<^verbatim>\<open>train/c.csv\<close> with
  \<open>maxFiles = 1\<close>: the root phase alone finds two files, discovery returns one
  root-level candidate, and neither input validation nor discovery gives a
  \<^verbatim>\<open>max_files_reached\<close> warning: the lists of warnings are both empty.
\<close>

theorem discover_root_budget_no_warning:
  "list_root_tabular_files two_csv_root =
     Inr [([''data'', ''a.csv''], File), ([''data'', ''b.csv''], File)] \<and>
   validate_inputs two_csv_args = Inr (two_csv_root, []) \<and>
   discover_tabular_files two_csv_root 1 2 = Inr ([([''data'', ''a.csv''], File)], [])"
  by code_simp

text \<open>
  Claim C8: when the root phase finds fewer than \<open>maxFiles\<close> files and no allowlisted
  subdirectory exists under the dataset root, discovery returns the root-phase files
  unchanged with exactly one warning, \<^verbatim>\<open>no_allowlisted_dirs\<close>; nothing is raised and
  no \<^verbatim>\<open>no_tabular_files_found\<close> warning is added, also when no file was found.
\<close>

theorem discover_no_allowlisted_dirs:
  assumes "list_root_tabular_files root = Inr rf"
    and "int (length rf) < m"
    and "list_allowlisted_directories root = []"
  shows "discover_tabular_files root m d = Inr (rf, [no_allowlisted_dirs])"
  using assms by (simp add: discover_tabular_files_def)

lemma bare_root_phase: "list_root_tabular_files bare_root = Inr []"
  by code_simp

lemma bare_root_allowlisted: "list_allowlisted_directories bare_root = []"
  by code_simp

theorem discover_no_allowlisted_dirs_witness:
  "list_root_tabular_files bare_root = Inr [] \<and> int (length ([] :: Path list)) < 12 \<and>
   list_allowlisted_directories bare_root = [] \<and>
   discover_tabular_files bare_root 12 2 = Inr ([], [no_allowlisted_dirs])"
  using discover_no_allowlisted_dirs [OF bare_root_phase _ bare_root_allowlisted, of 12 2]
  by (simp add: bare_root_phase bare_root_allowlisted)

section \<open>The bounded scan is the level order, cut at the limit\<close>

lemma tabular_not_dir: "is_tabular_file e \<Longrightarrow> \<not> is_dir e"
  by (simp add: is_tabular_file_def is_file_def is_dir_def)

lemma scan_entries_fst:
  "int (length d) \<le> l \<Longrightarrow>
   fst (scan_entries md l k es (d, q)) = take (nat l) (d @ filter is_tabular_file es)"
proof (induction es arbitrary: d q)
  case Nil
  then show ?case by simp
next
  case (Cons e es)
  show ?case
  proof (cases "int (length d) \<ge> l")
    case True
    then show ?thesis using Cons.prems by simp
  next
    case False
    show ?thesis
    proof (cases "is_tabular_file e")
      case True
      have "int (length (d @ [e])) \<le> l" using False by simp
      from Cons.IH [OF this, of q] show ?thesis using False True by simp
    next
      case nt: False
      from Cons.IH [OF Cons.prems, of q] Cons.IH [OF Cons.prems, of "q @ [(e, k + 1)]"]
      show ?thesis using False nt by simp
    qed
  qed
qed

lemma scan_entries_snd:
  "int (length d) + int (length (filter is_tabular_file es)) < l \<Longrightarrow>
   snd (scan_entries md l k es (d, q)) =
     q @ (if k < md then map (\<lambda>e. (e, k + 1)) (filter is_dir es) else [])"
  by (induction es arbitrary: d q) (auto simp: tabular_not_dir)

lemma bfs_loop_full: "\<not> int (length d) < l \<Longrightarrow> bfs_loop md l q d = d"
  by (cases q) auto

lemma bfs_loop_fifo:
  "int (length d) \<le> l \<Longrightarrow> bfs_loop md l q d = take (nat l) (d @ fifo md q)"
proof (induction md l q d rule: bfs_loop.induct)
  case (1 md l d)
  then show ?case by simp
next
  case (2 md l cur k q d)
  show ?case
  proof (cases "int (length d) < l")
    case False
    then show ?thesis using "2.prems" by simp
  next
    case True
    show ?thesis
    proof (cases "iterdir cur")
      case (Inl e)
      then have "sorted_children cur = []" by (simp add: sorted_children_def)
      then show ?thesis using True Inl "2.IH"(1) "2.prems" by (simp add: kids_def)
    next
      case (Inr cs)
      let ?es = "sort_key name cs"
      have sc: "sorted_children cur = ?es" using Inr by (simp add: sorted_children_def)
      obtain d' q' where s: "scan_entries md l k ?es (d, q) = (d', q')"
        by (cases "scan_entries md l k ?es (d, q)") auto
      have d': "d' = take (nat l) (d @ filter is_tabular_file ?es)"
        using scan_entries_fst [OF "2.prems", of md k ?es q] s by simp
      have step: "bfs_loop md l ((cur, k) # q) d = bfs_loop md l q' d'"
        using True Inr s by simp
      show ?thesis
      proof (cases "int (length d) + int (length (filter is_tabular_file ?es)) < l")
        case small: True
        then have q': "q' = q @ kids md (cur, k)"
          using scan_entries_snd [OF small, of md k q] s sc by (simp add: kids_def)
        have d'': "d' = d @ filter is_tabular_file ?es" using d' small by simp
        have "int (length d') \<le> l" using d'' small by simp
        then have "bfs_loop md l q' d' = take (nat l) (d' @ fifo md q')"
          using "2.IH"(2) [OF _ Inr s [symmetric]] True by simp
        then show ?thesis using step q' d'' sc by simp
      next
        case big: False
        then have len: "int (length d') = l" using d' True by simp
        then have "bfs_loop md l q' d' = d'" by (simp add: bfs_loop_full)
        moreover have "take (nat l) (d @ fifo md ((cur, k) # q)) = d'"
          using d' big sc by simp
        ultimately show ?thesis using step by simp
      qed
    qed
  qed
qed

lemma fifo_append:
  "fifo md (q @ r) =
     concat (map (\<lambda>pk. filter is_tabular_file (sorted_children (fst pk))) q)
       @ fifo md (r @ concat (map (kids md) q))"
proof (induction q arbitrary: r)
  case Nil
  show ?case by simp
next
  case (Cons x q)
  obtain cur k where x: "x = (cur, k)" by (cases x)
  show ?case using Cons.IH [of "r @ kids md (cur, k)"] by (simp add: x)
qed

lemma fifo_level:
  "fifo md q =
     filter is_tabular_file (concat (map sorted_children (map fst q)))
       @ fifo md (concat (map (kids md) q))"
  using fifo_append [of md q "[]"] by (simp add: filter_concat comp_def)

lemma fifo_bfs_levels:
  "at_level md n q \<Longrightarrow> fifo md q = bfs_levels n (map fst q)"
proof (induction n arbitrary: q)
  case 0
  then have e: "concat (map (kids md) q) = []"
    by (auto simp: at_level_def kids_def)
  show ?case by (subst fifo_level) (simp add: e)
next
  case (Suc n)
  have below: "\<forall>pk \<in> set q. snd pk < md" using Suc.prems by (auto simp: at_level_def)
  then have fst_kids:
    "map fst (concat (map (kids md) q)) = filter is_dir (concat (map sorted_children (map fst q)))"
    by (induction q) (auto simp: kids_def comp_def)
  have "at_level md n (concat (map (kids md) q))"
    using Suc.prems by (auto simp: at_level_def kids_def)
  from Suc.IH [OF this] show ?case using fifo_level [of md q] fst_kids by simp
qed

lemma bounded_scan_directory_levels:
  "bounded_scan_directory sub md l = take (nat l) (bfs_levels (nat md) [sub])"
proof (cases "l \<le> 0")
  case True
  then show ?thesis by (simp add: bounded_scan_directory_def)
next
  case False
  have "at_level md (nat md) [(sub, 0)]" by (auto simp: at_level_def)
  from fifo_bfs_levels [OF this] show ?thesis
    using False bfs_loop_fifo [of "[]" l md "[(sub, 0)]"]
    by (simp add: bounded_scan_directory_def)
qed

lemma take_append_take:
  "length d \<le> n \<Longrightarrow> take n (d @ take (n - length d) xs @ ys) = take n (d @ xs @ ys)"
  by (cases "length xs \<le> n - length d") auto

lemma scan_subdirs_order:
  "int (length d) \<le> m \<Longrightarrow> rem = m - int (length d) \<Longrightarrow>
   fst (scan_subdirs m md subs (d, rem)) = take (nat m) (d @ subdir_order md subs)"
proof (induction subs arbitrary: d rem)
  case Nil
  then show ?case by (simp add: subdir_order_def)
next
  case (Cons s subs)
  show ?case
  proof (cases "rem \<le> 0")
    case True
    then show ?thesis using Cons.prems by simp
  next
    case False
    let ?all = "bfs_levels (nat md) [s]"
    let ?new = "bounded_scan_directory s md rem"
    have new: "?new = take (nat m - length d) ?all"
      using Cons.prems by (simp add: bounded_scan_directory_levels nat_diff_distrib)
    have "int (length ?new) \<le> rem"
      using bounded_scan_directory_length [of s md rem] False by simp
    then have le: "int (length (d @ ?new)) \<le> m"
      using Cons.prems(2) by simp
    have "fst (scan_subdirs m md (s # subs) (d, rem))
            = fst (scan_subdirs m md subs (d @ ?new, m - int (length (d @ ?new))))"
      using False by (simp add: Let_def)
    also have "\<dots> = take (nat m) ((d @ ?new) @ subdir_order md subs)"
      by (rule Cons.IH [OF le refl])
    also have "\<dots> = take (nat m) (d @ take (nat m - length d) ?all @ subdir_order md subs)"
      by (simp only: new append_assoc)
    also have "\<dots> = take (nat m) (d @ ?all @ subdir_order md subs)"
      using Cons.prems(1) by (intro take_append_take) simp
    finally show ?thesis by (simp add: subdir_order_def)
  qed
qed

lemma list_root_tabular_files_children:
  "list_root_tabular_files root = Inr rf \<Longrightarrow> rf = filter is_tabular_file (sorted_children root)"
  by (auto simp: list_root_tabular_files_def sorted_children_def split: sum.splits)

lemma discover_files_order:
  assumes "discover_tabular_files root m d = Inr (files, ws)" and "0 \<le> m"
  shows "files = take (nat m) (discovery_order root d)"
proof -
  obtain rf where rf: "list_root_tabular_files root = Inr rf"
    using assms(1) by (cases "list_root_tabular_files root") (auto simp: discover_tabular_files_def)
  note rf_eq = list_root_tabular_files_children [OF rf]
  let ?subs = "list_allowlisted_directories root"
  show ?thesis
  proof (cases "int (length rf) \<ge> m")
    case True
    then have "files = take (nat m) rf"
      using assms rf by (simp add: discover_tabular_files_def slice_to_def)
    then show ?thesis using True rf_eq by (simp add: discovery_order_def)
  next
    case False
    show ?thesis
    proof (cases "?subs = []")
      case True
      then have "files = rf"
        using assms(1) rf False by (simp add: discover_tabular_files_def)
      moreover have "discovery_order root d = rf"
        using True rf_eq
        by (simp add: discovery_order_def subdir_order_def list_allowlisted_directories_def)
      ultimately show ?thesis using False by simp
    next
      case nonempty: False
      have "files = fst (scan_subdirs m d ?subs (rf, m - int (length rf)))"
        using assms(1) rf False nonempty
        by (auto simp: discover_tabular_files_def Let_def split: if_splits prod.splits)
      also have "\<dots> = take (nat m) (rf @ subdir_order d ?subs)"
        using False by (intro scan_subdirs_order) simp_all
      finally show ?thesis
        using rf_eq by (simp add: discovery_order_def list_allowlisted_directories_def)
    qed
  qed
qed

lemma sorted_children_sorted: "sorted (map name (sorted_children p))"
  by (simp add: sorted_children_def split: sum.splits)

lemma discover_example_12_2:
  "discover_tabular_files example_root 12 2 = Inr (example_files, [])"
  by code_simp

lemma discovery_order_example: "discovery_order example_root 2 = example_files"
  by code_simp

text \<open>
  Claim C6: for a fixed snapshot, the candidates that discovery returns are the first
  \<open>maxFiles\<close> entries of the list that holds the root-level tabular files in the order
  of their names, then, for each allowlisted subdirectory in the fixed order of the
  allowlist, its tabular files breadth first (level by level), the children of every
  directory taken in the order of their names.
\<close>

theorem discover_order:
  assumes "discover_tabular_files root m d = Inr (files, ws)" and "0 \<le> m"
  shows "files = take (nat m) (discovery_order root d) \<and>
         (\<forall>p. sorted (map name (sorted_children p)))"
  using discover_files_order [OF assms] sorted_children_sorted by simp

theorem discover_order_witness:
  "discover_tabular_files example_root 12 2 = Inr (example_files, []) \<and> (0::int) \<le> 12 \<and>
   example_files = take (nat 12) (discovery_order example_root 2) \<and>
   discovery_order example_root 2 = example_files \<and>
   (\<forall>p. sorted (map name (sorted_children p)))"
  using discover_order [OF discover_example_12_2] discovery_order_example
    discover_example_12_2 by simp

section \<open>The depth bound\<close>

lemma set_sorted_children:
  "set (sorted_children p) = (case iterdir p of Inl e \<Rightarrow> {} | Inr cs \<Rightarrow> set cs)"
  by (simp add: sorted_children_def split: sum.splits)

lemma sorted_children_parts:
  "c \<in> set (sorted_children p) \<Longrightarrow> \<exists>n. parts c = parts p @ [n]"
  by (auto simp: set_sorted_children iterdir_def parts_def split: sum.splits fsnode.splits)

lemma bfs_levels_parts:
  "f \<in> set (bfs_levels n dirs) \<Longrightarrow>
   \<exists>dir \<in> set dirs. \<exists>rest. parts f = parts dir @ rest \<and> 1 \<le> length rest \<and> length rest \<le> n + 1"
proof (induction n arbitrary: dirs)
  case 0
  then obtain dir where "dir \<in> set dirs" and "f \<in> set (sorted_children dir)" by auto
  then show ?case using sorted_children_parts [of f dir] by fastforce
next
  case (Suc n)
  let ?cs = "concat (map sorted_children dirs)"
  show ?case
  proof (cases "f \<in> set (filter is_tabular_file ?cs)")
    case True
    then obtain dir where "dir \<in> set dirs" and "f \<in> set (sorted_children dir)" by auto
    then show ?thesis using sorted_children_parts [of f dir] by fastforce
  next
    case False
    then have "f \<in> set (bfs_levels n (filter is_dir ?cs))" using Suc.prems by auto
    from Suc.IH [OF this] obtain c rest where c: "c \<in> set ?cs"
      and f: "parts f = parts c @ rest" "1 \<le> length rest" "length rest \<le> n + 1" by auto
    from c obtain dir where dir: "dir \<in> set dirs" and "c \<in> set (sorted_children dir)" by auto
    then obtain x where "parts c = parts dir @ [x]" using sorted_children_parts by blast
    then have "parts f = parts dir @ (x # rest)" "1 \<le> length (x # rest)"
      "length (x # rest) \<le> Suc n + 1" using f by simp_all
    then show ?thesis using dir by blast
  qed
qed

lemma discover_files_subset:
  assumes "discover_tabular_files root m d = Inr (files, ws)"
  shows "set files \<subseteq> set (discovery_order root d)"
proof (cases "0 \<le> m")
  case True
  from discover_files_order [OF assms True] show ?thesis by (simp add: set_take_subset)
next
  case False
  obtain rf where rf: "list_root_tabular_files root = Inr rf"
    using assms by (cases "list_root_tabular_files root") (auto simp: discover_tabular_files_def)
  have "files = slice_to rf m"
    using assms rf False by (simp add: discover_tabular_files_def)
  then have "set files \<subseteq> set rf" by (auto simp: slice_to_def dest: in_set_takeD)
  then show ?thesis
    using list_root_tabular_files_children [OF rf] by (auto simp: discovery_order_def)
qed

lemma joinpath_parts: "parts (joinpath p n) = parts p @ [n]"
  by (simp add: joinpath_def parts_def)

text \<open>
  Claim C4: for every \<open>subdirMaxDepth d\<close>, a discovered file that lies inside an
  allowlisted subdirectory lies at most \<open>d\<close> directory levels below the root of that
  subdirectory: with \<open>d = 0\<close> only its direct children are found, and with \<open>d = 2\<close> a
  file three levels below it is never found.
\<close>

theorem discover_depth_bound:
  assumes "discover_tabular_files root m d = Inr (files, ws)"
    and "0 \<le> d"
    and "f \<in> set files"
    and "sub \<in> set (list_allowlisted_directories root)"
    and "inside sub f"
  shows "levels_below sub f \<le> d"
proof -
  from assms(4) have sub: "length (parts sub) = length (parts root) + 1"
    by (auto simp: list_allowlisted_directories_def joinpath_parts)
  from discover_files_subset [OF assms(1)] assms(3)
  have "f \<in> set (discovery_order root d)" by auto
  then have "f \<in> set (sorted_children root) \<or>
      (\<exists>s \<in> set (list_allowlisted_directories root). f \<in> set (bfs_levels (nat d) [s]))"
    by (auto simp: discovery_order_def subdir_order_def list_allowlisted_directories_def)
  then consider (root) "f \<in> set (sorted_children root)"
    | (subdir) sub' where "sub' \<in> set (list_allowlisted_directories root)"
        "f \<in> set (bfs_levels (nat d) [sub'])"
    by blast
  then show ?thesis
  proof cases
    case root
    then have "length (parts f) = length (parts root) + 1"
      using sorted_children_parts [of f root] by auto
    then show ?thesis using sub assms(2) by (simp add: levels_below_def)
  next
    case subdir
    from bfs_levels_parts [OF subdir(2)] obtain rest
      where "parts f = parts sub' @ rest" "length rest \<le> nat d + 1" by auto
    moreover have "length (parts sub') = length (parts root) + 1"
      using subdir(1) by (auto simp: list_allowlisted_directories_def joinpath_parts)
    ultimately show ?thesis using sub assms(2) by (simp add: levels_below_def)
  qed
qed

lemma train_dir_allowlisted: "train_dir \<in> set (list_allowlisted_directories example_root)"
  by code_simp

lemma deep_file_inside: "inside train_dir ([''data'', ''train'', ''deep'', ''q.csv''], File)"
  by code_simp

lemma deep_file_level: "levels_below train_dir ([''data'', ''train'', ''deep'', ''q.csv''], File) = 1"
  by code_simp

theorem discover_depth_bound_witness:
  "discover_tabular_files example_root 12 2 = Inr (example_files, []) \<and> (0::int) \<le> 2 \<and>
   ([''data'', ''train'', ''deep'', ''q.csv''], File) \<in> set example_files \<and>
   train_dir \<in> set (list_allowlisted_directories example_root) \<and>
   inside train_dir ([''data'', ''train'', ''deep'', ''q.csv''], File) \<and>
   levels_below train_dir ([''data'', ''train'', ''deep'', ''q.csv''], File) \<le> 2"
  using discover_depth_bound [OF discover_example_12_2 _ _ train_dir_allowlisted deep_file_inside]
    discover_example_12_2 train_dir_allowlisted deep_file_inside
  by (simp add: example_files_def)

text \<open>
  With files only three levels below \<^verbatim>\<open>train/\<close> and a depth bound of 2, nothing is
  discovered and nothing is raised.
\<close>

lemma discover_deep_root:
  "discover_tabular_files deep_root 12 2 = Inr ([], [no_tabular_files_found])"
  by code_simp

section \<open>Depth zero\<close>

text \<open>
  Claim C10: with \<open>subdirMaxDepth = 0\<close> input validation warns that only root-level
  files are inspected, and yet discovery returns, after the root-level files, the tabular
  files that are direct children of the existing allowlisted subdirectories, up to the
  budget; while budget remains, every such file is discovered.
\<close>

theorem depth_zero_scans_subdir_roots:
  assumes "validate_inputs args = Inr (root, iw)"
    and "subdir_max_depth args = 0"
    and "discover_tabular_files root (max_files args) (subdir_max_depth args) = Inr (files, dw)"
  shows "subdir_scan_disabled \<in> set iw \<and>
         files = take (nat (max_files args))
                   (filter is_tabular_file (sorted_children root)
                      @ concat (map (\<lambda>sub. filter is_tabular_file (sorted_children sub))
                                  (list_allowlisted_directories root))) \<and>
         (int (length files) < max_files args \<longrightarrow>
            (\<forall>sub \<in> set (list_allowlisted_directories root).
               \<forall>f \<in> set (sorted_children sub). is_tabular_file f \<longrightarrow> f \<in> set files))"
proof -
  let ?all = "filter is_tabular_file (sorted_children root)
                @ concat (map (\<lambda>sub. filter is_tabular_file (sorted_children sub))
                            (list_allowlisted_directories root))"
  have m: "0 \<le> max_files args" and iw: "iw = [subdir_scan_disabled]"
    using assms(1,2) by (auto simp: validate_inputs_def split: if_splits)
  have files: "files = take (nat (max_files args)) ?all"
    using discover_files_order [OF assms(3) m] assms(2)
    by (simp add: discovery_order_def subdir_order_def list_allowlisted_directories_def)
  have "files = ?all" if "int (length files) < max_files args"
  proof -
    have "length (take (nat (max_files args)) ?all) < nat (max_files args)"
      using that files by simp
    then have "length ?all < nat (max_files args)" by (simp add: min_def split: if_splits)
    then show ?thesis using files by simp
  qed
  then have "int (length files) < max_files args \<longrightarrow>
      (\<forall>sub \<in> set (list_allowlisted_directories root).
         \<forall>f \<in> set (sorted_children sub). is_tabular_file f \<longrightarrow> f \<in> set files)"
    by auto
  then show ?thesis using iw files by simp
qed

lemma validate_depth_zero_args:
  "validate_inputs depth_zero_args = Inr (example_root, [subdir_scan_disabled])"
  by code_simp

lemma discover_example_12_0:
  "discover_tabular_files example_root (max_files depth_zero_args)
     (subdir_max_depth depth_zero_args) = Inr (take 3 example_files, [])"
  by code_simp

lemma train_children:
  "([''data'', ''train'', ''z.parquet''], File) \<in> set (sorted_children train_dir) \<and>
   is_tabular_file ([''data'', ''train'', ''z.parquet''], File)"
  by code_simp

theorem depth_zero_scans_subdir_roots_witness:
  "validate_inputs depth_zero_args = Inr (example_root, [subdir_scan_disabled]) \<and>
   subdir_max_depth depth_zero_args = 0 \<and>
   discover_tabular_files example_root (max_files depth_zero_args)
     (subdir_max_depth depth_zero_args) = Inr (take 3 example_files, []) \<and>
   int (length (take 3 example_files)) < max_files depth_zero_args \<and>
   train_dir \<in> set (list_allowlisted_directories example_root) \<and>
   ([''data'', ''train'', ''z.parquet''], File) \<in> set (sorted_children train_dir) \<and>
   is_tabular_file ([''data'', ''train'', ''z.parquet''], File) \<and>
   ([''data'', ''train'', ''z.parquet''], File) \<in> set (take 3 example_files)"
proof -
  have d0: "subdir_max_depth depth_zero_args = 0" by (simp add: depth_zero_args_def)
  have len: "int (length (take 3 example_files)) < max_files depth_zero_args"
    by (simp add: example_files_def depth_zero_args_def)
  from depth_zero_scans_subdir_roots [OF validate_depth_zero_args d0 discover_example_12_0]
  have "\<forall>sub \<in> set (list_allowlisted_directories example_root).
          \<forall>f \<in> set (sorted_children sub). is_tabular_file f \<longrightarrow> f \<in> set (take 3 example_files)"
    using len by blast
  then have "([''data'', ''train'', ''z.parquet''], File) \<in> set (take 3 example_files)"
    using train_dir_allowlisted train_children by blast
  then show ?thesis
    using validate_depth_zero_args d0 discover_example_12_0 len train_dir_allowlisted
      train_children by simp
qed

section \<open>Directories that cannot be listed\<close>

lemma name_readable: "name (readable p) = name p"
  by (simp add: readable_def name_def)

lemma is_tabular_file_readable: "is_tabular_file (readable p) = is_tabular_file p"
  by (cases "snd p")
    (simp_all add: is_tabular_file_def is_file_def suffix_def name_def readable_def)

lemma is_dir_readable: "is_dir (readable p) = is_dir p"
  by (cases "snd p") (simp_all add: is_dir_def readable_def)

lemma readable_tabular: "is_tabular_file p \<Longrightarrow> readable p = p"
  by (cases p) (simp add: is_tabular_file_def is_file_def readable_def)

lemma insort_key_map_inv:
  "(\<And>x. f (g x) = f x) \<Longrightarrow> insort_key f (g x) (map g ys) = map g (insort_key f x ys)"
  by (induction ys) auto

lemma sort_key_map_inv:
  "(\<And>x. f (g x) = f x) \<Longrightarrow> sort_key f (map g xs) = map g (sort_key f xs)"
  by (induction xs) (auto simp: insort_key_map_inv)

lemma sorted_children_readable:
  "sorted_children (readable p) = map readable (sorted_children p)"
proof (cases "snd p")
  case (Dir cs)
  let ?cs0 = "map (\<lambda>(n, c). (fst p @ [n], c)) cs"
  have a: "iterdir p = Inr ?cs0" using Dir by (simp add: iterdir_def)
  have b: "iterdir (readable p) = Inr (map readable ?cs0)"
    using Dir by (simp add: iterdir_def readable_def case_prod_unfold comp_def)
  have "sort_key name (map readable ?cs0) = map readable (sort_key name ?cs0)"
    by (rule sort_key_map_inv) (rule name_readable)
  then show ?thesis
    by (simp only: sorted_children_def a b sum.case)
qed (simp_all add: sorted_children_def iterdir_def readable_def)

lemma children_readable:
  "concat (map sorted_children (map readable dirs))
     = map readable (concat (map sorted_children dirs))"
  by (simp add: comp_def sorted_children_readable map_concat)

lemma tabular_children_readable:
  "filter is_tabular_file (map readable cs) = filter is_tabular_file cs"
proof -
  have "filter is_tabular_file (map readable cs) = map readable (filter is_tabular_file cs)"
    by (simp add: filter_map comp_def is_tabular_file_readable)
  also have "\<dots> = filter is_tabular_file cs"
    by (rule map_idI) (simp add: readable_tabular)
  finally show ?thesis .
qed

lemma dir_children_readable:
  "filter is_dir (map readable cs) = map readable (filter is_dir cs)"
  by (simp add: filter_map comp_def is_dir_readable)

lemma bfs_levels_readable: "bfs_levels n (map readable dirs) = bfs_levels n dirs"
proof (induction n arbitrary: dirs)
  case 0
  show ?case
    by (simp only: bfs_levels.simps children_readable tabular_children_readable)
next
  case (Suc n)
  show ?case
    by (simp only: bfs_levels.simps children_readable tabular_children_readable
        dir_children_readable Suc.IH)
qed

lemma bounded_scan_directory_readable:
  "bounded_scan_directory (readable sub) md l = bounded_scan_directory sub md l"
  using bfs_levels_readable [of "nat md" "[sub]"] by (simp add: bounded_scan_directory_levels)

lemma scan_subdirs_readable:
  "scan_subdirs m md (map readable subs) st = scan_subdirs m md subs st"
proof (induction subs arbitrary: st)
  case Nil
  show ?case by simp
next
  case (Cons s subs)
  obtain disc rem where st: "st = (disc, rem)" by (cases st)
  show ?case by (simp add: st Let_def bounded_scan_directory_readable Cons.IH)
qed

lemma joinpath_readable: "joinpath (readable p) n = readable (joinpath p n)"
proof (cases "snd p")
  case (Dir cs)
  have "map_of (map (map_prod id as_empty) cs) n = map_option as_empty (map_of cs n)"
    by (induction cs) auto
  then show ?thesis using Dir by (simp add: joinpath_def readable_def split: option.splits)
qed (simp_all add: joinpath_def readable_def)

lemma list_allowlisted_directories_readable:
  "list_allowlisted_directories (readable root) = map readable (list_allowlisted_directories root)"
  by (simp add: list_allowlisted_directories_def filter_map comp_def joinpath_readable
      is_dir_readable)

lemma list_root_tabular_files_readable:
  assumes "iterdir root = Inr cs"
  shows "list_root_tabular_files (readable root) = list_root_tabular_files root"
proof -
  obtain cs' where cs': "iterdir (readable root) = Inr cs'"
    using assms by (auto simp: iterdir_def readable_def split: fsnode.splits)
  have "filter is_tabular_file (sorted_children (readable root))
          = filter is_tabular_file (sorted_children root)"
    by (simp only: sorted_children_readable tabular_children_readable)
  then show ?thesis
    using assms cs' by (simp add: list_root_tabular_files_def sorted_children_def)
qed

text \<open>
  Claim C9: in the bounded scan, a directory whose listing raises \<open>OSError\<close> is skipped
  alone: the loop goes on with the rest of the queue, and the files and the warnings that
  discovery returns are those of the snapshot in which every such directory is an empty
  directory, so nothing is raised and no warning is added for it.
\<close>

theorem listing_error_skips_directory:
  assumes "iterdir cur = Inl e" and "iterdir root = Inr cs"
  shows "bfs_loop md l ((cur, k) # q) disc = bfs_loop md l q disc \<and>
         discover_tabular_files (readable root) m d = discover_tabular_files root m d"
proof
  show "bfs_loop md l ((cur, k) # q) disc = bfs_loop md l q disc"
    using assms(1) by (cases "int (length disc) < l") (simp_all add: bfs_loop_full)
next
  show "discover_tabular_files (readable root) m d = discover_tabular_files root m d"
    by (simp add: discover_tabular_files_def list_root_tabular_files_readable [OF assms(2)]
        list_allowlisted_directories_readable scan_subdirs_readable Let_def
        cong: sum.case_cong if_cong)
qed

lemma iterdir_locked_dir: "iterdir locked_dir = Inl OSError"
  by code_simp

lemma iterdir_example_root:
  "iterdir example_root =
     Inr [([''data'', ''b.csv''], File), ([''data'', ''a.CSV''], File),
          ([''data'', ''notes.txt''], File),
          ([''data'', ''train''],
           Dir [(''z.parquet'', File), (''deep'', Dir [(''q.csv'', File)]),
                (''locked'', Unreadable)]),
          ([''data'', ''other''], Dir [(''x.csv'', File)])]"
  by code_simp

lemma bfs_loop_after_locked_dir:
  "bfs_loop 2 12 [(joinpath train_dir ''deep'', 1)] [([''data'', ''train'', ''z.parquet''], File)] =
     [([''data'', ''train'', ''z.parquet''], File), ([''data'', ''train'', ''deep'', ''q.csv''], File)]"
  by code_simp

theorem listing_error_skips_directory_witness:
  "iterdir locked_dir = Inl OSError \<and>
   bfs_loop 2 12 [(locked_dir, 1), (joinpath train_dir ''deep'', 1)]
       [([''data'', ''train'', ''z.parquet''], File)] =
     [([''data'', ''train'', ''z.parquet''], File), ([''data'', ''train'', ''deep'', ''q.csv''], File)] \<and>
   discover_tabular_files (readable example_root) 12 2 = Inr (example_files, []) \<and>
   discover_tabular_files example_root 12 2 = Inr (example_files, [])"
  using listing_error_skips_directory [OF iterdir_locked_dir iterdir_example_root,
      of 2 12 1 "[(joinpath train_dir ''deep'', 1)]"
         "[([''data'', ''train'', ''z.parquet''], File)]" 12 2]
    iterdir_locked_dir bfs_loop_after_locked_dir discover_example_12_2
  by simp

section \<open>Decoding with the handler \<open>Replace\<close>\<close>

lemma utf8_decode_Replace: "\<exists>t. utf8_decode Replace bs = Inr t"
proof (induction "length bs" arbitrary: bs rule: less_induct)
  case less
  show ?case
  proof (cases bs)
    case Nil
    then show ?thesis by simp
  next
    case (Cons b r)
    obtain cp k where st: "utf8_step (b # r) = (cp, k)" by (cases "utf8_step (b # r)")
    have "0 < k" using utf8_step_consumes [of "b # r"] st by simp
    then have "length (drop k (b # r)) < length bs" using Cons by simp
    from less [OF this] obtain t where "utf8_decode Replace (drop k (b # r)) = Inr t" by blast
    then show ?thesis using st Cons by (cases cp) (simp_all del: utf8_step.simps)
  qed
qed

lemma utf8_decode_decoded: "utf8_decode Replace bs = Inr (decoded bs)"
  using utf8_decode_Replace [of bs] by (auto simp: decoded_def)

lemma utf8_decode_Strict_same:
  "utf8_decode Strict bs = Inr t \<Longrightarrow> utf8_decode Replace bs = Inr t"
proof (induction "length bs" arbitrary: bs t rule: less_induct)
  case less
  show ?case
  proof (cases bs)
    case Nil
    then show ?thesis using less.prems by simp
  next
    case (Cons b r)
    obtain cp k where st: "utf8_step (b # r) = (cp, k)" by (cases "utf8_step (b # r)")
    have "0 < k" using utf8_step_consumes [of "b # r"] st by simp
    then have shorter: "length (drop k (b # r)) < length bs" using Cons by simp
    show ?thesis
    proof (cases cp)
      case None
      then show ?thesis using less.prems st Cons by (simp del: utf8_step.simps)
    next
      case (Some c)
      then obtain t' where t': "utf8_decode Strict (drop k (b # r)) = Inr t'" "t = c # t'"
        using less.prems st Cons by (auto simp del: utf8_step.simps split: sum.splits)
      from less.hyps [OF shorter t'(1)] show ?thesis
        using st Cons Some t'(2) by (simp del: utf8_step.simps)
    qed
  qed
qed

lemma utf8_decode_Strict_replaced:
  "utf8_decode Strict bs = Inl e \<Longrightarrow> 0xFFFD \<in> set (decoded bs)"
proof (induction "length bs" arbitrary: bs rule: less_induct)
  case less
  show ?case
  proof (cases bs)
    case Nil
    then show ?thesis using less.prems by simp
  next
    case (Cons b r)
    obtain cp k where st: "utf8_step (b # r) = (cp, k)" by (cases "utf8_step (b # r)")
    have "0 < k" using utf8_step_consumes [of "b # r"] st by simp
    then have shorter: "length (drop k (b # r)) < length bs" using Cons by simp
    have rest: "utf8_decode Replace (drop k (b # r)) = Inr (decoded (drop k (b # r)))"
      by (rule utf8_decode_decoded)
    show ?thesis
    proof (cases cp)
      case None
      then have "utf8_decode Replace bs = Inr (0xFFFD # decoded (drop k (b # r)))"
        using st Cons rest by (simp del: utf8_step.simps)
      then show ?thesis by (simp add: decoded_def)
    next
      case (Some c)
      then have "utf8_decode Strict (drop k (b # r)) = Inl e"
        using less.prems st Cons by (auto simp del: utf8_step.simps split: sum.splits)
      from less.hyps [OF shorter this] have "0xFFFD \<in> set (decoded (drop k (b # r)))" .
      moreover have "utf8_decode Replace bs = Inr (c # decoded (drop k (b # r)))"
        using st Cons rest Some by (simp del: utf8_step.simps)
      ultimately show ?thesis by (simp add: decoded_def)
    qed
  qed
qed

section \<open>The CSV summary\<close>

subsection \<open>The sampling loop\<close>

lemma sample_loop_Nil: "sample_loop n cols names [] st = Inr st"
  by (cases st) simp

lemma sample_loop_Inl: "sample_loop n cols names (Inl e # rd) st = Inl e"
  by (cases st) simp

lemma sample_loop_blank:
  "sample_loop n cols names (Inr [] # rd) st = sample_loop n cols names rd st"
  by (cases st) simp

lemma sample_loop_row:
  "rec \<noteq> [] \<Longrightarrow>
   sample_loop n cols names (Inr rec # rd) (j, nc) =
     (if n \<le> j then Inr (j, nc)
      else case count_nulls cols (dict_row names rec) nc of
             Inl e \<Rightarrow> Inl e
           | Inr nc' \<Rightarrow> sample_loop n cols names rd (j + 1, nc'))"
  by simp

declare sample_loop.simps [simp del]

lemma set_update_subset: "set (AList.update k v al) \<subseteq> insert (k, v) (set al)"
  by (induction al) auto

lemma zero_counts_distinct:
  "distinct (map fst d0) \<Longrightarrow>
   distinct (map fst (fold (\<lambda>column d. AList.update column (0::int) d) columns d0))"
  by (induction columns arbitrary: d0) (simp_all add: distinct_update)

lemma zero_counts_keys:
  "fst ` set (fold (\<lambda>column d. AList.update column (0::int) d) columns d0)
     = set columns \<union> fst ` set d0"
  by (induction columns arbitrary: d0) (auto simp: dom_update)

lemma zero_counts_values:
  "\<forall>ck \<in> set d0. snd ck = 0 \<Longrightarrow>
   \<forall>ck \<in> set (fold (\<lambda>column d. AList.update column (0::int) d) columns d0). snd ck = 0"
proof (induction columns arbitrary: d0)
  case Nil
  then show ?case by simp
next
  case (Cons c columns)
  have "\<forall>ck \<in> set (AList.update c 0 d0). snd ck = 0"
    using Cons.prems set_update_subset [of c "0::int" d0] by auto
  from Cons.IH [OF this] show ?case by simp
qed

lemma count_nulls_bounds:
  assumes "set cs \<subseteq> fst ` set nc"
  shows "\<exists>nc'. count_nulls cs row nc = Inr nc' \<and> map fst nc' = map fst nc \<and>
           (\<forall>c k. map_of nc c = Some k \<longrightarrow>
              (\<exists>k'. map_of nc' c = Some k' \<and> k \<le> k' \<and> k' \<le> k + int (count_list cs c)))"
  using assms
proof (induction cs arbitrary: nc)
  case Nil
  show ?case by simp
next
  case (Cons c0 cs)
  let ?null = "case map_of row c0 of None \<Rightarrow> True | Some None \<Rightarrow> True
                | Some (Some v) \<Rightarrow> strip v = ascii EMPTY_CELL_VALUE"
  show ?case
  proof (cases ?null)
    case False
    have "set cs \<subseteq> fst ` set nc" using Cons.prems by simp
    from Cons.IH [OF this] obtain nc' where nc':
      "count_nulls cs row nc = Inr nc'" "map fst nc' = map fst nc"
      "\<forall>c k. map_of nc c = Some k \<longrightarrow>
         (\<exists>k'. map_of nc' c = Some k' \<and> k \<le> k' \<and> k' \<le> k + int (count_list cs c))"
      by blast
    have "count_nulls (c0 # cs) row nc = Inr nc'" using False nc'(1) by simp
    moreover have "\<forall>c k. map_of nc c = Some k \<longrightarrow>
         (\<exists>k'. map_of nc' c = Some k' \<and> k \<le> k' \<and> k' \<le> k + int (count_list (c0 # cs) c))"
      using nc'(3) by fastforce
    ultimately show ?thesis using nc'(2) by blast
  next
    case True
    have "c0 \<in> fst ` set nc" using Cons.prems by simp
    then obtain n where n: "map_of nc c0 = Some n"
      by (cases "map_of nc c0") (auto simp: map_of_eq_None_iff)
    let ?nc1 = "AList.update c0 (n + 1) nc"
    have keys1: "map fst ?nc1 = map fst nc"
      using \<open>c0 \<in> fst ` set nc\<close> by (simp add: update_keys)
    then have "set cs \<subseteq> fst ` set ?nc1"
      using Cons.prems by (simp add: dom_update insert_absorb)
    from Cons.IH [OF this] obtain nc' where nc':
      "count_nulls cs row ?nc1 = Inr nc'" "map fst nc' = map fst ?nc1"
      "\<forall>c k. map_of ?nc1 c = Some k \<longrightarrow>
         (\<exists>k'. map_of nc' c = Some k' \<and> k \<le> k' \<and> k' \<le> k + int (count_list cs c))"
      by blast
    have "count_nulls (c0 # cs) row nc = Inr nc'" using True n nc'(1) by simp
    moreover have "\<exists>k'. map_of nc' c = Some k' \<and> k \<le> k' \<and> k' \<le> k + int (count_list (c0 # cs) c)"
      if "map_of nc c = Some k" for c k
    proof (cases "c = c0")
      case True
      then have "map_of ?nc1 c = Some (k + 1)" using that n by (simp add: update_conv')
      with nc'(3) obtain k' where "map_of nc' c = Some k'" "k + 1 \<le> k'"
        "k' \<le> k + 1 + int (count_list cs c)" by blast
      then show ?thesis using True by auto
    next
      case False
      then have "map_of ?nc1 c = Some k" using that by (simp add: update_conv')
      with nc'(3) obtain k' where "map_of nc' c = Some k'" "k \<le> k'"
        "k' \<le> k + int (count_list cs c)" by blast
      then show ?thesis using False by auto
    qed
    ultimately show ?thesis using nc'(2) keys1 by auto
  qed
qed

lemma count_list_distinct: "distinct xs \<Longrightarrow> x \<in> set xs \<Longrightarrow> count_list xs x = 1"
  by (induction xs) auto

lemma sample_loop_error:
  assumes "set cols \<subseteq> fst ` set nc"
    and "sample_loop n cols names rd (j, nc) = Inl e"
  shows "Inl e \<in> set rd"
  using assms
proof (induction rd arbitrary: j nc)
  case Nil
  then show ?case by (simp add: sample_loop_Nil)
next
  case (Cons pull rd)
  show ?case
  proof (cases pull)
    case (Inl e')
    then show ?thesis using Cons.prems by (simp add: sample_loop_Inl)
  next
    case (Inr rec)
    show ?thesis
    proof (cases "rec = []")
      case True
      then have "sample_loop n cols names rd (j, nc) = Inl e"
        using Cons.prems(2) Inr by (simp add: sample_loop_blank)
      from Cons.IH [OF Cons.prems(1) this] show ?thesis by simp
    next
      case False
      from count_nulls_bounds [OF Cons.prems(1), of "dict_row names rec"] obtain nc1 where nc1:
        "count_nulls cols (dict_row names rec) nc = Inr nc1" "map fst nc1 = map fst nc"
        by blast
      have keys: "set cols \<subseteq> fst ` set nc1"
        using Cons.prems(1) nc1(2) by (metis list.set_map)
      have "sample_loop n cols names rd (j + 1, nc1) = Inl e"
        using Cons.prems(2) Inr False nc1(1) by (simp add: sample_loop_row split: if_splits)
      from Cons.IH [OF keys this] show ?thesis by simp
    qed
  qed
qed

lemma sample_loop_returns:
  assumes "set cols \<subseteq> fst ` set nc" and "raises_nothing rd"
  shows "\<exists>r. sample_loop n cols names rd (j, nc) = Inr r"
proof (cases "sample_loop n cols names rd (j, nc)")
  case (Inl e)
  from sample_loop_error [OF assms(1) Inl] show ?thesis
    using assms(2) by (auto simp: raises_nothing_def list_all_iff)
next
  case (Inr r)
  then show ?thesis by blast
qed

lemma sample_loop_bounds:
  assumes "set cols \<subseteq> fst ` set nc"
    and "sample_loop n cols names rd (j, nc) = Inr (j', nc')"
  shows "j' = (if n \<le> j then j else min n (j + int (length (records rd)))) \<and>
         map fst nc' = map fst nc \<and>
         (\<forall>c k. map_of nc c = Some k \<longrightarrow>
            (\<exists>k'. map_of nc' c = Some k' \<and> k \<le> k' \<and>
                  k' \<le> k + (j' - j) * int (count_list cols c)))"
  using assms
proof (induction rd arbitrary: j nc)
  case Nil
  then show ?case by (simp add: sample_loop_Nil)
next
  case (Cons pull rd)
  show ?case
  proof (cases pull)
    case (Inl e')
    then show ?thesis using Cons.prems by (simp add: sample_loop_Inl)
  next
    case (Inr rec)
    show ?thesis
    proof (cases "rec = []")
      case True
      then have run: "sample_loop n cols names rd (j, nc) = Inr (j', nc')"
        using Cons.prems(2) Inr by (simp add: sample_loop_blank)
      have same: "records (pull # rd) = records rd" using Inr True by simp
      show ?thesis unfolding same by (rule Cons.IH [OF Cons.prems(1) run])
    next
      case False
      show ?thesis
      proof (cases "n \<le> j")
        case True
        then show ?thesis using Cons.prems(2) Inr False by (simp add: sample_loop_row)
      next
        case more: False
        from count_nulls_bounds [OF Cons.prems(1), of "dict_row names rec"] obtain nc1 where nc1:
          "count_nulls cols (dict_row names rec) nc = Inr nc1" "map fst nc1 = map fst nc"
          "\<forall>c k. map_of nc c = Some k \<longrightarrow>
             (\<exists>k'. map_of nc1 c = Some k' \<and> k \<le> k' \<and> k' \<le> k + int (count_list cols c))"
          by blast
        have keys: "set cols \<subseteq> fst ` set nc1"
          using Cons.prems(1) nc1(2) by (metis list.set_map)
        have run: "sample_loop n cols names rd (j + 1, nc1) = Inr (j', nc')"
          using Cons.prems(2) Inr False more nc1(1) by (simp add: sample_loop_row)
        from Cons.IH [OF keys run] have r:
          "j' = (if n \<le> j + 1 then j + 1 else min n (j + 1 + int (length (records rd))))"
          "map fst nc' = map fst nc1"
          "\<forall>c k. map_of nc1 c = Some k \<longrightarrow>
             (\<exists>k'. map_of nc' c = Some k' \<and> k \<le> k' \<and>
                   k' \<le> k + (j' - (j + 1)) * int (count_list cols c))"
          by blast+
        have j': "j' = min n (j + int (length (records (pull # rd))))"
          using more r(1) Inr False by auto
        have "\<exists>k'. map_of nc' c = Some k' \<and> k \<le> k' \<and> k' \<le> k + (j' - j) * int (count_list cols c)"
          if "map_of nc c = Some k" for c k
        proof -
          from nc1(3) that obtain k1 where k1: "map_of nc1 c = Some k1" "k \<le> k1"
            "k1 \<le> k + int (count_list cols c)" by blast
          from r(3) k1(1) obtain k' where k': "map_of nc' c = Some k'" "k1 \<le> k'"
            "k' \<le> k1 + (j' - (j + 1)) * int (count_list cols c)" by blast
          have "k' \<le> k + int (count_list cols c) + (j' - (j + 1)) * int (count_list cols c)"
            using k1(3) k'(3) by simp
          also have "\<dots> = k + (j' - j) * int (count_list cols c)"
            by (simp add: algebra_simps)
          finally show ?thesis using k'(1,2) k1(2) by auto
        qed
        then show ?thesis using j' more r(2) nc1(2) by auto
      qed
    qed
  qed
qed

subsection \<open>The summary\<close>

lemma fieldnames_Inr:
  "fieldnames rd = Inr (names, rest) \<Longrightarrow>
   (case names of None \<Rightarrow> [] | Some h \<Rightarrow> h) = header rd \<and> rest = tl rd"
  by (cases rd rule: fieldnames.cases) (auto simp: header_def)

lemma fieldnames_Inl: "fieldnames rd = Inl e \<Longrightarrow> Inl e \<in> set rd"
  by (cases rd rule: fieldnames.cases) auto

lemma raises_nothing_tl: "raises_nothing rd \<Longrightarrow> raises_nothing (tl rd)"
  by (cases rd) (auto simp: raises_nothing_def)

lemma fieldnames_returns: "raises_nothing rd \<Longrightarrow> \<exists>r. fieldnames rd = Inr r"
  by (cases rd rule: fieldnames.cases) (auto simp: raises_nothing_def)

lemma inspect_csv_file_unfold:
  "inspect_csv_file csv_reader p (Inr bytes) n =
     (case fieldnames (csv_reader (decoded bytes)) of
        Inl e \<Rightarrow> Inl e
      | Inr (names, reader) \<Rightarrow>
          (case sample_loop n (header (csv_reader (decoded bytes)))
                  (header (csv_reader (decoded bytes))) (tl (csv_reader (decoded bytes)))
                  (0, fold (\<lambda>column d. AList.update column 0 d)
                        (header (csv_reader (decoded bytes))) []) of
             Inl e \<Rightarrow> Inl e
           | Inr (sampled_rows, null_counts') \<Rightarrow>
               Inr \<lparr>csv_kind = ''csv'', csv_path = str_path p,
                    csv_columns = header (csv_reader (decoded bytes)),
                    csv_sampled_rows = sampled_rows, csv_null_counts = null_counts'\<rparr>))"
proof (cases "fieldnames (csv_reader (decoded bytes))")
  case (Inl e)
  then show ?thesis by (simp add: inspect_csv_file_def utf8_decode_decoded)
next
  case (Inr r)
  obtain names rest where r: "r = (names, rest)" by (cases r)
  from fieldnames_Inr [of "csv_reader (decoded bytes)" names rest] Inr r
  have "(case names of None \<Rightarrow> [] | Some h \<Rightarrow> h) = header (csv_reader (decoded bytes))"
    and "rest = tl (csv_reader (decoded bytes))" by simp_all
  then show ?thesis
    using Inr r
    by (simp add: inspect_csv_file_def utf8_decode_decoded Let_def
        split: sum.splits prod.splits)
qed

lemma zero_counts_cover:
  "set cols \<subseteq> fst ` set (fold (\<lambda>column d. AList.update column (0::int) d) cols [])"
  by (simp add: zero_counts_keys)

lemma inspect_csv_file_error:
  assumes "inspect_csv_file csv_reader p (Inr bytes) n = Inl e"
  shows "Inl e \<in> set (csv_reader (decoded bytes))"
proof (cases "fieldnames (csv_reader (decoded bytes))")
  case (Inl e')
  then show ?thesis using assms fieldnames_Inl by (simp add: inspect_csv_file_unfold)
next
  case (Inr r)
  let ?rd = "csv_reader (decoded bytes)"
  have "sample_loop n (header ?rd) (header ?rd) (tl ?rd)
          (0, fold (\<lambda>column d. AList.update column 0 d) (header ?rd) []) = Inl e"
    using assms Inr by (auto simp: inspect_csv_file_unfold split: sum.splits prod.splits)
  from sample_loop_error [OF zero_counts_cover this] show ?thesis
    by (cases ?rd) auto
qed

lemma inspect_csv_file_returns:
  assumes "raises_nothing (csv_reader (decoded bytes))"
  shows "\<exists>s. inspect_csv_file csv_reader p (Inr bytes) n = Inr s"
proof (cases "inspect_csv_file csv_reader p (Inr bytes) n")
  case (Inl e)
  from inspect_csv_file_error [OF Inl] show ?thesis
    using assms by (auto simp: raises_nothing_def list_all_iff)
next
  case (Inr s)
  then show ?thesis by blast
qed

lemma inspect_csv_file_summary:
  assumes "inspect_csv_file csv_reader p (Inr bytes) n = Inr s"
  shows "csv_columns s = header (csv_reader (decoded bytes)) \<and>
         csv_sampled_rows s =
           (if n \<le> 0 then 0 else min n (int (length (data_rows (csv_reader (decoded bytes)))))) \<and>
         fst ` set (csv_null_counts s) = set (csv_columns s) \<and>
         distinct (map fst (csv_null_counts s)) \<and>
         (\<forall>ck \<in> set (csv_null_counts s).
            0 \<le> snd ck \<and>
            snd ck \<le> csv_sampled_rows s * int (count_list (csv_columns s) (fst ck)))"
proof -
  let ?rd = "csv_reader (decoded bytes)"
  let ?cols = "header ?rd"
  let ?nc0 = "fold (\<lambda>column d. AList.update column (0::int) d) ?cols []"
  have keys0: "fst ` set ?nc0 = set ?cols" by (simp add: zero_counts_keys)
  have dist0: "distinct (map fst ?nc0)" by (rule zero_counts_distinct) simp
  have zero0: "\<forall>ck \<in> set ?nc0. snd ck = 0" by (rule zero_counts_values) simp
  obtain j' nc' where run: "sample_loop n ?cols ?cols (tl ?rd) (0, ?nc0) = Inr (j', nc')"
    and s: "s = \<lparr>csv_kind = ''csv'', csv_path = str_path p, csv_columns = ?cols,
                  csv_sampled_rows = j', csv_null_counts = nc'\<rparr>"
    using assms by (auto simp: inspect_csv_file_unfold split: sum.splits prod.splits)
  from sample_loop_bounds [OF zero_counts_cover run] have r:
    "j' = (if n \<le> 0 then 0 else min n (0 + int (length (records (tl ?rd)))))"
    "map fst nc' = map fst ?nc0"
    "\<forall>c k. map_of ?nc0 c = Some k \<longrightarrow>
       (\<exists>k'. map_of nc' c = Some k' \<and> k \<le> k' \<and> k' \<le> k + (j' - 0) * int (count_list ?cols c))"
    by blast+
  have keys: "fst ` set nc' = set ?cols"
    using r(2) keys0 by (metis list.set_map)
  have dist: "distinct (map fst nc')" using r(2) dist0 by simp
  have "0 \<le> snd ck \<and> snd ck \<le> j' * int (count_list ?cols (fst ck))"
    if "ck \<in> set nc'" for ck
  proof -
    obtain c k' where ck: "ck = (c, k')" by (cases ck)
    have k': "map_of nc' c = Some k'" using that dist ck by simp
    have "c \<in> fst ` set ?nc0" using that ck keys keys0 by force
    then obtain k where k: "(c, k) \<in> set ?nc0" by auto
    then have "k = 0" using zero0 by auto
    then have "map_of ?nc0 c = Some 0" using k dist0 by simp
    with r(3) k' show ?thesis using ck by fastforce
  qed
  then show ?thesis using s keys dist r(1) by (simp add: data_rows_def)
qed

subsection \<open>The example files\<close>

lemma decode_label_csv:
  "utf8_decode Replace label_csv =
     Inr [105, 100, 44, 108, 97, 98, 101, 108, 10, 49, 44, 65533, 10, 10, 50, 44, 32, 32, 10,
          51, 10]"
  by (simp add: label_csv_def ascii_def continuation_def)

lemma decode_label_csv_strict: "utf8_decode Strict label_csv = Inl UnicodeDecodeError"
  by (simp add: label_csv_def ascii_def continuation_def)

lemma decoded_label_csv:
  "decoded label_csv =
     [105, 100, 44, 108, 97, 98, 101, 108, 10, 49, 44, 65533, 10, 10, 50, 44, 32, 32, 10,
      51, 10]"
  by (simp add: decoded_def decode_label_csv)

lemma read_label_csv:
  "plain_reader 131072 (decoded label_csv) =
     [Inr [[105, 100], [108, 97, 98, 101, 108]], Inr [[49], [65533]], Inr [],
      Inr [[50], [32, 32]], Inr [[51]]]"
  by (simp add: decoded_label_csv plain_reader_def splitlines_def)

lemma inspect_label_csv:
  "inspect_csv_file (plain_reader 131072) a_csv (Inr label_csv) 200 = Inr label_summary"
  using read_label_csv
  by (simp add: inspect_csv_file_def decode_label_csv decoded_label_csv label_summary_def
      a_csv_def str_path_def dict_row_def strip_def isspace_def EMPTY_CELL_VALUE_def ascii_def
      sample_loop.simps)

lemma inspect_twice_csv:
  "inspect_csv_file (plain_reader 131072) a_csv (Inr twice_csv) 200 = Inr twice_summary"
  by (simp add: inspect_csv_file_def twice_csv_def plain_reader_def splitlines_def
      twice_summary_def a_csv_def str_path_def dict_row_def strip_def isspace_def
      EMPTY_CELL_VALUE_def ascii_def sample_loop.simps)

text \<open>
  With a field size limit of 4 the second record of \<open>wide_csv\<close> cannot be read, and the
  inspector raises what the reader raises.
\<close>

lemma inspect_wide_csv:
  "inspect_csv_file (plain_reader 4) a_csv (Inr wide_csv) 200 = Inl CsvError"
  by (simp add: inspect_csv_file_def wide_csv_def plain_reader_def splitlines_def
      a_csv_def str_path_def dict_row_def strip_def isspace_def EMPTY_CELL_VALUE_def ascii_def
      sample_loop.simps)

lemma inspect_csv_file_raises:
  assumes "csv_reader (decoded bytes) = Inr names # Inl e # rest" and "1 \<le> n"
  shows "inspect_csv_file csv_reader p (Inr bytes) n = Inl e"
  using assms by (simp add: inspect_csv_file_unfold header_def sample_loop_Inl)

lemma utf8_decode_ascii: "\<forall>b \<in> set bs. b < 0x80 \<Longrightarrow> utf8_decode errors bs = Inr bs"
  by (induction bs) simp_all

lemma split_on_sep:
  "sep \<notin> set xs \<Longrightarrow> split_on sep (xs @ sep # ys) = xs # split_on sep ys"
  by (induction xs) simp_all

lemma split_on_none: "sep \<notin> set xs \<Longrightarrow> split_on sep xs = [xs]"
  by (induction xs) simp_all

lemma long_field_length: "length long_field = 131073"
  by (simp add: long_field_def)

lemma long_field_set: "set long_field = {0x78}"
  by (simp add: long_field_def)

lemma decoded_long_csv: "decoded long_csv = [0x61, 0x0A] @ long_field @ [0x0A]"
proof -
  have "\<forall>b \<in> set long_csv. b < 0x80"
    by (simp add: long_csv_def ascii_def long_field_set)
  then have "utf8_decode Replace long_csv = Inr long_csv" by (rule utf8_decode_ascii)
  then show ?thesis by (simp add: decoded_def) (simp add: long_csv_def ascii_def)
qed

lemma read_long_csv:
  "plain_reader 131072 (decoded long_csv) = [Inr [[0x61]], Inl CsvError]"
proof -
  have nonempty: "long_field \<noteq> []" using long_field_length by auto
  have "split_on 0x0A (long_field @ 0x0A # []) = long_field # split_on 0x0A []"
    by (rule split_on_sep) (simp add: long_field_set)
  then have lines: "splitlines (decoded long_csv) = [[0x61], long_field]"
    by (simp add: decoded_long_csv splitlines_def)
  have fields: "split_on 0x2C long_field = [long_field]"
    by (rule split_on_none) (simp add: long_field_set)
  show ?thesis
    by (simp add: plain_reader_def lines fields nonempty long_field_length)
qed

text \<open>
  With the field size limit of \<^verbatim>\<open>csv.reader\<close>, 131072, the second record of \<open>long_csv\<close>
  cannot be read, and the inspector raises what the reader raises.
\<close>

lemma inspect_long_csv:
  "inspect_csv_file (plain_reader 131072) a_csv (Inr long_csv) 200 = Inl CsvError"
  using inspect_csv_file_raises [where csv_reader = "plain_reader 131072" and bytes = long_csv
      and n = 200 and p = a_csv, OF read_long_csv]
  by simp

subsection \<open>Columns and null counts\<close>

text \<open>
  Claim C3, as the code has it: the columns of a summary that the inspector returns are
  the names of the header record as read, in order and with their repetitions, and the
  keys of the null counts are pairwise distinct and are exactly the names in the
  columns; the inspector returns a summary whenever no pull of the reader raises.
\<close>

theorem csv_columns_null_counts:
  "(\<forall>s. inspect_csv_file csv_reader p (Inr bytes) n = Inr s \<longrightarrow>
        csv_columns s = header (csv_reader (decoded bytes)) \<and>
        fst ` set (csv_null_counts s) = set (csv_columns s) \<and>
        distinct (map fst (csv_null_counts s))) \<and>
   (raises_nothing (csv_reader (decoded bytes)) \<longrightarrow>
      (\<exists>s. inspect_csv_file csv_reader p (Inr bytes) n = Inr s))"
  using inspect_csv_file_summary [of csv_reader p bytes n]
    inspect_csv_file_returns [of csv_reader bytes p n]
  by blast

theorem csv_columns_null_counts_witness:
  "raises_nothing (plain_reader 131072 (decoded label_csv)) \<and>
   inspect_csv_file (plain_reader 131072) a_csv (Inr label_csv) 200 = Inr label_summary \<and>
   csv_columns label_summary = header (plain_reader 131072 (decoded label_csv)) \<and>
   fst ` set (csv_null_counts label_summary) = set (csv_columns label_summary) \<and>
   distinct (map fst (csv_null_counts label_summary))"
proof -
  have clean: "raises_nothing (plain_reader 131072 (decoded label_csv))"
    by (simp add: read_label_csv raises_nothing_def)
  from csv_columns_null_counts [of "plain_reader 131072" a_csv label_csv 200]
  have "csv_columns label_summary = header (plain_reader 131072 (decoded label_csv)) \<and>
        fst ` set (csv_null_counts label_summary) = set (csv_columns label_summary) \<and>
        distinct (map fst (csv_null_counts label_summary))"
    using inspect_label_csv by blast
  then show ?thesis using clean inspect_label_csv by simp
qed

text \<open>A header that repeats a name gives columns that are not pairwise distinct.\<close>

theorem csv_columns_repeated:
  "inspect_csv_file (plain_reader 131072) a_csv (Inr twice_csv) 200 = Inr twice_summary \<and>
   \<not> distinct (csv_columns twice_summary)"
  using inspect_twice_csv by (simp add: twice_summary_def)

subsection \<open>Sampled rows and null counts\<close>

text \<open>
  Claim C7, as the code has it, for \<open>sampleRows \<ge> 1\<close> and a file that opens: decoding
  never raises, it leaves a well-formed file as it is and puts U+FFFD for the bytes that
  are no UTF-8; the inspector raises only what a pull of the reader raises, and returns a
  summary when none does; in a summary that it returns, the number of sampled rows is the
  minimum of \<open>sampleRows\<close> and the number of records after the header that are not
  blank, and, when the names of the columns are pairwise distinct, every null count lies
  between 0 and the number of sampled rows.
\<close>

theorem csv_sample_counts:
  assumes "1 \<le> n"
  shows "utf8_decode Replace bytes = Inr (decoded bytes) \<and>
         (\<forall>t. utf8_decode Strict bytes = Inr t \<longrightarrow> decoded bytes = t) \<and>
         (utf8_decode Strict bytes = Inl UnicodeDecodeError \<longrightarrow> 0xFFFD \<in> set (decoded bytes)) \<and>
         (\<forall>e. inspect_csv_file csv_reader p (Inr bytes) n = Inl e \<longrightarrow>
               Inl e \<in> set (csv_reader (decoded bytes))) \<and>
         (raises_nothing (csv_reader (decoded bytes)) \<longrightarrow>
            (\<exists>s. inspect_csv_file csv_reader p (Inr bytes) n = Inr s)) \<and>
         (\<forall>s. inspect_csv_file csv_reader p (Inr bytes) n = Inr s \<longrightarrow>
               csv_sampled_rows s = min n (int (length (data_rows (csv_reader (decoded bytes))))) \<and>
               (distinct (csv_columns s) \<longrightarrow>
                  (\<forall>ck \<in> set (csv_null_counts s). 0 \<le> snd ck \<and> snd ck \<le> csv_sampled_rows s)))"
proof -
  have same: "decoded bytes = t" if "utf8_decode Strict bytes = Inr t" for t
    using utf8_decode_Strict_same [OF that] utf8_decode_decoded [of bytes] by simp
  have summary: "csv_sampled_rows s = min n (int (length (data_rows (csv_reader (decoded bytes))))) \<and>
      (distinct (csv_columns s) \<longrightarrow>
         (\<forall>ck \<in> set (csv_null_counts s). 0 \<le> snd ck \<and> snd ck \<le> csv_sampled_rows s))"
    if run: "inspect_csv_file csv_reader p (Inr bytes) n = Inr s" for s
  proof -
    note r = inspect_csv_file_summary [OF run]
    have "0 \<le> snd ck \<and> snd ck \<le> csv_sampled_rows s"
      if "distinct (csv_columns s)" and "ck \<in> set (csv_null_counts s)" for ck
    proof -
      have "fst ck \<in> set (csv_columns s)" using that(2) r by force
      then have "count_list (csv_columns s) (fst ck) = 1"
        using that(1) by (simp add: count_list_distinct)
      then show ?thesis using r that(2) by fastforce
    qed
    then show ?thesis using r assms by auto
  qed
  show ?thesis
    using utf8_decode_decoded [of bytes] same utf8_decode_Strict_replaced [of bytes]
      inspect_csv_file_error [of csv_reader p bytes n]
      inspect_csv_file_returns [of csv_reader bytes p n] summary
    by blast
qed

theorem csv_sample_counts_witness:
  "(1::int) \<le> 200 \<and>
   utf8_decode Strict label_csv = Inl UnicodeDecodeError \<and>
   0xFFFD \<in> set (decoded label_csv) \<and>
   raises_nothing (plain_reader 131072 (decoded label_csv)) \<and>
   inspect_csv_file (plain_reader 131072) a_csv (Inr label_csv) 200 = Inr label_summary \<and>
   csv_sampled_rows label_summary
     = min 200 (int (length (data_rows (plain_reader 131072 (decoded label_csv))))) \<and>
   distinct (csv_columns label_summary) \<and>
   (ascii ''label'', 2) \<in> set (csv_null_counts label_summary) \<and>
   (2::int) \<le> csv_sampled_rows label_summary"
proof -
  have one: "(1::int) \<le> 200" by simp
  note c = csv_sample_counts [where n = 200 and bytes = label_csv
      and csv_reader = "plain_reader 131072" and p = a_csv, OF one]
  have clean: "raises_nothing (plain_reader 131072 (decoded label_csv))"
    by (simp add: read_label_csv raises_nothing_def)
  have d: "distinct (csv_columns label_summary)" by (simp add: label_summary_def ascii_def)
  have m: "(ascii ''label'', 2) \<in> set (csv_null_counts label_summary)"
    by (simp add: label_summary_def)
  have r: "0xFFFD \<in> set (decoded label_csv)"
    using c decode_label_csv_strict by blast
  from c inspect_label_csv
  have s: "csv_sampled_rows label_summary
             = min 200 (int (length (data_rows (plain_reader 131072 (decoded label_csv)))))"
    and "distinct (csv_columns label_summary) \<longrightarrow>
           (\<forall>ck \<in> set (csv_null_counts label_summary).
              0 \<le> snd ck \<and> snd ck \<le> csv_sampled_rows label_summary)"
    by blast+
  with d have b: "\<forall>ck \<in> set (csv_null_counts label_summary).
                    0 \<le> snd ck \<and> snd ck \<le> csv_sampled_rows label_summary"
    by blast
  have "(2::int) \<le> csv_sampled_rows label_summary" using b m by fastforce
  then show ?thesis using decode_label_csv_strict clean inspect_label_csv d m r s by simp
qed

text \<open>
  With the header \<^verbatim>\<open>a,a\<close> one sampled row with an empty last field counts twice under
  \<^verbatim>\<open>a\<close>, and for a file with a field of 131073 characters the inspector returns no
  summary.
\<close>

theorem csv_null_count_exceeds_rows:
  "inspect_csv_file (plain_reader 131072) a_csv (Inr twice_csv) 200 = Inr twice_summary \<and>
   (ascii ''a'', 2) \<in> set (csv_null_counts twice_summary) \<and>
   \<not> (2::int) \<le> csv_sampled_rows twice_summary \<and>
   inspect_csv_file (plain_reader 131072) a_csv (Inr long_csv) 200 = Inl CsvError"
  using inspect_twice_csv inspect_long_csv by (simp add: twice_summary_def)

section \<open>The Parquet summary\<close>

lemma build_parquet_fallback_options: "options (build_parquet_fallback host path) \<noteq> []"
  by (simp add: build_parquet_fallback_def Let_def)

text \<open>
  Claim C5: a summary that the Parquet inspector returns has one of the three statuses;
  with the status \<^verbatim>\<open>ok\<close> it has no error and no fallback, and with the status
  \<^verbatim>\<open>fallback-required\<close> or \<^verbatim>\<open>read-error\<close> it has an error message and a fallback whose
  list of options is not empty.
\<close>

theorem parquet_status_invariant:
  assumes "inspect_parquet_file host path n = Inr s"
  shows "pq_status s \<in> {''ok'', ''fallback-required'', ''read-error''} \<and>
         (pq_status s = ''ok'' \<longrightarrow> pq_error s = None \<and> pq_fallback s = None) \<and>
         (pq_status s \<in> {''fallback-required'', ''read-error''} \<longrightarrow>
            pq_error s \<noteq> None \<and> (\<exists>fb. pq_fallback s = Some fb \<and> options fb \<noteq> []))"
proof (cases "pyarrow host")
  case None
  then have "s = \<lparr>pq_kind = ''parquet'', pq_path = str_path path,
               pq_status = ''fallback-required'', pq_columns = [], pq_sampled_rows = None,
               pq_null_counts = None, pq_fallback = Some (build_parquet_fallback host path),
               pq_error = Some ''pyarrow is not installed in the active Python environment.''\<rparr>"
    using assms by (simp add: inspect_parquet_file_def)
  then show ?thesis by (simp add: build_parquet_fallback_options)
next
  case (Some open_parquet)
  show ?thesis
  proof (cases "open_parquet path")
    case (Inl err)
    then have "pq_status s = ''read-error''" "pq_error s \<noteq> None"
      "pq_fallback s = Some (build_parquet_fallback host path)"
      using assms Some by (auto simp: inspect_parquet_file_def)
    then show ?thesis by (simp add: build_parquet_fallback_options)
  next
    case (Inr parquet_file)
    show ?thesis
    proof (cases "iter_batches parquet_file n")
      case (Inl err)
      then have "pq_status s = ''read-error''" "pq_error s \<noteq> None"
        "pq_fallback s = Some (build_parquet_fallback host path)"
        using assms Some Inr by (auto simp: inspect_parquet_file_def Let_def)
      then show ?thesis by (simp add: build_parquet_fallback_options)
    next
      case batch: (Inr first_batch)
      have "pq_status s = ''ok'' \<and> pq_error s = None \<and> pq_fallback s = None"
        using assms Some Inr batch
        by (auto simp: inspect_parquet_file_def Let_def split: option.splits sum.splits)
      then show ?thesis by simp
    qed
  qed
qed

lemma inspect_without_pyarrow:
  "\<exists>s. inspect_parquet_file bare_host b_parquet 200 = Inr s \<and>
        pq_status s = ''fallback-required''"
  by (simp add: inspect_parquet_file_def bare_host_def)

lemma inspect_with_pyarrow:
  "\<exists>s. inspect_parquet_file arrow_host b_parquet 200 = Inr s \<and> pq_status s = ''ok'' \<and>
        pq_sampled_rows s = Some 3 \<and> pq_null_counts s = Some [(''id'', 0), (''label'', 1)]"
  by (simp add: inspect_parquet_file_def arrow_host_def b_parquet_def two_column_file_def)

lemma inspect_unreadable_parquet:
  "\<exists>s. inspect_parquet_file arrow_host ([''data'', ''c.parquet''], Special) 200 = Inr s \<and>
        pq_status s = ''read-error''"
  by (simp add: inspect_parquet_file_def arrow_host_def)

theorem parquet_status_invariant_witness:
  "(\<exists>s. inspect_parquet_file bare_host b_parquet 200 = Inr s \<and>
         pq_status s = ''fallback-required'' \<and> pq_error s \<noteq> None \<and>
         (\<exists>fb. pq_fallback s = Some fb \<and> options fb \<noteq> [])) \<and>
   (\<exists>s. inspect_parquet_file arrow_host ([''data'', ''c.parquet''], Special) 200 = Inr s \<and>
         pq_status s = ''read-error'' \<and> pq_error s \<noteq> None \<and>
         (\<exists>fb. pq_fallback s = Some fb \<and> options fb \<noteq> [])) \<and>
   (\<exists>s. inspect_parquet_file arrow_host b_parquet 200 = Inr s \<and>
         pq_status s = ''ok'' \<and> pq_error s = None \<and> pq_fallback s = None)"
proof -
  from inspect_without_pyarrow obtain s1 where s1:
    "inspect_parquet_file bare_host b_parquet 200 = Inr s1" "pq_status s1 = ''fallback-required''"
    by blast
  from inspect_unreadable_parquet obtain s2 where s2:
    "inspect_parquet_file arrow_host ([''data'', ''c.parquet''], Special) 200 = Inr s2"
    "pq_status s2 = ''read-error''"
    by blast
  from inspect_with_pyarrow obtain s3 where s3:
    "inspect_parquet_file arrow_host b_parquet 200 = Inr s3" "pq_status s3 = ''ok''"
    by blast
  have "pq_error s1 \<noteq> None \<and> (\<exists>fb. pq_fallback s1 = Some fb \<and> options fb \<noteq> [])"
    using parquet_status_invariant [OF s1(1)] s1(2) by simp
  moreover have "pq_error s2 \<noteq> None \<and> (\<exists>fb. pq_fallback s2 = Some fb \<and> options fb \<noteq> [])"
    using parquet_status_invariant [OF s2(1)] s2(2) by simp
  moreover have "pq_error s3 = None \<and> pq_fallback s3 = None"
    using parquet_status_invariant [OF s3(1)] s3(2) by simp
  ultimately show ?thesis using s1 s2 s3 by blast
qed

end
